theory Spec2Isabelle
  imports Main
begin

section \<open>JavaScript values of an interface description\<close>

text \<open>
  The schema utilities (\<^verbatim>\<open>utils/schema-utils.js\<close>) work on a parsed OpenAPI document: a
  tree of plain JavaScript values. An object is the list of its own enumerable properties
  in the order \<^verbatim>\<open>Object.entries\<close> enumerates them; a missing property reads as
  \<^verbatim>\<open>undefined\<close>. Numbers are the integer-valued ones: the code only ever tests a number
  for truthiness. A thrown exception is a value as well (the source reads the property
  \<^verbatim>\<open>options\<close> of what it catches), so a computation that may throw has the type
  \<open>json + 'a\<close> with \<open>Inl\<close> the thrown value.
\<close>

datatype json =
    JUndefined
  | JNull
  | JBool bool
  | JNum int
  | JString string
  | JArray "json list"
  | JObject "(string \<times> json) list"

text \<open>The value thrown when a property of \<^verbatim>\<open>undefined\<close> or \<^verbatim>\<open>null\<close> is read.\<close>

definition TypeError :: json where
  "TypeError = JObject [(''name'', JString ''TypeError'')]"

text \<open>JavaScript truthiness, as used by \<^verbatim>\<open>!x\<close>, \<^verbatim>\<open>x || y\<close>, \<^verbatim>\<open>x ? a : b\<close> and \<^verbatim>\<open>filter\<close>.\<close>

fun truthy :: "json \<Rightarrow> bool" where
  "truthy JUndefined = False"
| "truthy JNull = False"
| "truthy (JBool b) = b"
| "truthy (JNum n) = (n \<noteq> 0)"
| "truthy (JString s) = (s \<noteq> [])"
| "truthy (JArray xs) = True"
| "truthy (JObject kvs) = True"

text \<open>Decimal digits of an array index, as \<^verbatim>\<open>Object.entries\<close> names the elements of an array.\<close>

function string_of_nat :: "nat \<Rightarrow> string" where
  "string_of_nat n =
     (if n < 10 then [char_of (48 + n)]
      else string_of_nat (n div 10) @ [char_of (48 + n mod 10)])"
  by pat_completeness auto
termination
  by (relation "measure id") auto

text \<open>
  The own enumerable properties of a value that is neither \<^verbatim>\<open>undefined\<close> nor \<^verbatim>\<open>null\<close>:
  the members of an object, the indexed elements of an array, the indexed characters of a
  string, nothing for a number or a boolean.
\<close>

fun own_entries :: "json \<Rightarrow> (string \<times> json) list" where
  "own_entries (JObject kvs) = kvs"
| "own_entries (JArray xs) = zip (map string_of_nat [0..<length xs]) xs"
| "own_entries (JString s) = zip (map string_of_nat [0..<length s]) (map (\<lambda>c. JString [c]) s)"
| "own_entries v = []"

text \<open>\<^verbatim>\<open>Object.entries(v)\<close>: throws on \<^verbatim>\<open>undefined\<close> and \<^verbatim>\<open>null\<close>.\<close>

fun Object_entries :: "json \<Rightarrow> json + (string \<times> json) list" where
  "Object_entries JUndefined = Inl TypeError"
| "Object_entries JNull = Inl TypeError"
| "Object_entries v = Inr (own_entries v)"

text \<open>
  Reading a property of a value that is neither \<^verbatim>\<open>undefined\<close> nor \<^verbatim>\<open>null\<close>. The keys the
  source reads are \<^verbatim>\<open>openapi\<close>, \<^verbatim>\<open>paths\<close>, \<^verbatim>\<open>responses\<close>, \<^verbatim>\<open>requestBody\<close>,
  \<^verbatim>\<open>parameters\<close>, \<^verbatim>\<open>content\<close>, \<^verbatim>\<open>application/json\<close>, \<^verbatim>\<open>schema\<close>, \<^verbatim>\<open>items\<close>,
  \<^verbatim>\<open>options\<close> and the path keys that \<^verbatim>\<open>Object.entries\<close> has just enumerated; none of
  them names an inherited property, so the own properties (and \<^verbatim>\<open>length\<close>) decide.
\<close>

fun own_prop :: "json \<Rightarrow> string \<Rightarrow> json" where
  "own_prop (JArray xs) k =
     (if k = ''length'' then JNum (int (length xs))
      else (case map_of (own_entries (JArray xs)) k of None \<Rightarrow> JUndefined | Some x \<Rightarrow> x))"
| "own_prop (JString s) k =
     (if k = ''length'' then JNum (int (length s))
      else (case map_of (own_entries (JString s)) k of None \<Rightarrow> JUndefined | Some x \<Rightarrow> x))"
| "own_prop v k = (case map_of (own_entries v) k of None \<Rightarrow> JUndefined | Some x \<Rightarrow> x)"

text \<open>\<^verbatim>\<open>v.k\<close> and \<^verbatim>\<open>v[k]\<close>: a \<^verbatim>\<open>TypeError\<close> when \<open>v\<close> is \<^verbatim>\<open>undefined\<close> or \<^verbatim>\<open>null\<close>.\<close>

fun get_prop :: "json \<Rightarrow> string \<Rightarrow> json + json" where
  "get_prop JUndefined k = Inl TypeError"
| "get_prop JNull k = Inl TypeError"
| "get_prop v k = Inr (own_prop v k)"

text \<open>Optional chaining \<^verbatim>\<open>v?.k\<close> and \<^verbatim>\<open>v?.[k]\<close>: \<^verbatim>\<open>undefined\<close> instead of the \<^verbatim>\<open>TypeError\<close>.\<close>

fun get_opt :: "json \<Rightarrow> string \<Rightarrow> json" where
  "get_opt JUndefined k = JUndefined"
| "get_opt JNull k = JUndefined"
| "get_opt v k = own_prop v k"

section \<open>Occurrences and groups\<close>

text \<open>
  One record per (operation, status code), as \<^verbatim>\<open>extractSchemas\<close> builds it. The keys
  \<^verbatim>\<open>code\<close>, \<^verbatim>\<open>path\<close> and \<^verbatim>\<open>method\<close> come out of \<^verbatim>\<open>Object.entries\<close> and are strings.
\<close>

record item =
  code :: string
  path :: string
  method' :: string
  res :: json
  req :: json
  parametersMethod :: json
  parametersPath :: json

text \<open>The argument \<^verbatim>\<open>type\<close> of \<^verbatim>\<open>processType\<close>: the string \<^verbatim>\<open>"res"\<close> or \<^verbatim>\<open>"req"\<close>.\<close>

datatype msg_type = Res | Req

text \<open>\<^verbatim>\<open>item[type]\<close>\<close>

fun item_at :: "item \<Rightarrow> msg_type \<Rightarrow> json" where
  "item_at i Res = res i"
| "item_at i Req = req i"

record endpoint =
  ep_method :: string
  ep_path :: string
  ep_code :: string

record group =
  schema :: json
  endpoints :: "endpoint list"
  message_type :: "msg_type list"

section \<open>The grouping engine\<close>

text \<open>
  The comparator \<^verbatim>\<open>compare\<close> is the library \<^verbatim>\<open>json-schema-compare\<close>, called with the
  fixed option \<^verbatim>\<open>{ ignore: ["description"] }\<close>. It is a parameter of the model: a function
  that answers with a boolean or throws.
\<close>

type_synonym comparator = "json \<Rightarrow> json \<Rightarrow> json + bool"

text \<open>
  What a run of \<^verbatim>\<open>groupBySchema\<close> changes: the array \<^verbatim>\<open>grouped\<close> and the lines written
  with \<^verbatim>\<open>console.error\<close>.
\<close>

record run =
  grouped :: "group list"
  console_error :: "json list"

text \<open>The filter of \<^verbatim>\<open>processType\<close>: \<^verbatim>\<open>i[type]?.content?.["application/json"]?.schema\<close>.\<close>

definition schema_opt :: "item \<Rightarrow> msg_type \<Rightarrow> json" where
  "schema_opt i type =
     get_opt (get_opt (get_opt (item_at i type) ''content'') ''application/json'') ''schema''"

text \<open>\<^verbatim>\<open>item[type].content["application/json"].schema\<close>, every step of which may throw.\<close>

definition body_schema :: "item \<Rightarrow> msg_type \<Rightarrow> json + json" where
  "body_schema i type =
     (case get_prop (item_at i type) ''content'' of
        Inl e \<Rightarrow> Inl e
      | Inr content \<Rightarrow>
          (case get_prop content ''application/json'' of
             Inl e \<Rightarrow> Inl e
           | Inr media \<Rightarrow> get_prop media ''schema''))"

text \<open>
  \<^verbatim>\<open>item[type].content["application/json"].schema.items ||
  item[type].content["application/json"].schema\<close>
\<close>

definition schema_items_or_schema :: "item \<Rightarrow> msg_type \<Rightarrow> json + json" where
  "schema_items_or_schema i type =
     (case body_schema i type of
        Inl e \<Rightarrow> Inl e
      | Inr s \<Rightarrow>
          (case get_prop s ''items'' of
             Inl e \<Rightarrow> Inl e
           | Inr its \<Rightarrow> if truthy its then Inr its else body_schema i type))"

text \<open>\<^verbatim>\<open>Promise.all\<close> over promises that are already settled: the first rejection in
  the order of the array, or all the values.\<close>

fun Promise_all :: "(json + 'a) list \<Rightarrow> json + 'a list" where
  "Promise_all [] = Inr []"
| "Promise_all (Inl e # ps) = Inl e"
| "Promise_all (Inr v # ps) = (case Promise_all ps of Inl e \<Rightarrow> Inl e | Inr vs \<Rightarrow> Inr (v # vs))"

text \<open>
  \<^verbatim>\<open>findSimilarSchema\<close>. The callback of \<^verbatim>\<open>map\<close> runs for every group, whether or not an
  earlier one matched; its answer is the group itself (here: its position in
  \<^verbatim>\<open>sourceArray\<close>, standing for the reference to the object) or \<^verbatim>\<open>false\<close> (here:
  \<open>None\<close>), unless \<^verbatim>\<open>compare\<close> throws. \<^verbatim>\<open>find\<close> then takes the first answer that is not
  \<^verbatim>\<open>false\<close>.
\<close>

definition findSimilarSchema_callback :: "comparator \<Rightarrow> json \<Rightarrow> nat \<times> group \<Rightarrow> json + nat option" where
  "findSimilarSchema_callback compare destination p =
     (case compare (schema (snd p)) destination of
        Inl e \<Rightarrow> Inl e
      | Inr b \<Rightarrow> Inr (if b then Some (fst p) else None))"

definition findSimilarSchema :: "comparator \<Rightarrow> group list \<Rightarrow> json \<Rightarrow> json + nat option" where
  "findSimilarSchema compare sourceArray destination =
     (case Promise_all (map (findSimilarSchema_callback compare destination)
                            (enumerate 0 sourceArray)) of
        Inl e \<Rightarrow> Inl e
      | Inr comparisons \<Rightarrow>
          Inr (case find (\<lambda>result. result \<noteq> None) comparisons of
                 None \<Rightarrow> None
               | Some result \<Rightarrow> result))"

definition updateGroupedSchema :: "group \<Rightarrow> item \<Rightarrow> msg_type \<Rightarrow> group" where
  "updateGroupedSchema g i type =
     (let endpoint = \<lparr>ep_method = method' i, ep_path = path i, ep_code = code i\<rparr>;
          g1 = (if \<not> list_ex (\<lambda>e. ep_path e = ep_path endpoint \<and> ep_method e = ep_method endpoint
                                 \<and> ep_code e = ep_code endpoint) (endpoints g)
                then g\<lparr>endpoints := endpoints g @ [endpoint]\<rparr> else g)
      in if type \<notin> set (message_type g1)
         then g1\<lparr>message_type := message_type g1 @ [type]\<rparr> else g1)"

definition addNewSchema :: "group list \<Rightarrow> item \<Rightarrow> msg_type \<Rightarrow> json + group list" where
  "addNewSchema gs i type =
     (case schema_items_or_schema i type of
        Inl e \<Rightarrow> Inl e
      | Inr s \<Rightarrow>
          Inr (gs @ [\<lparr>schema = s,
                       endpoints = [\<lparr>ep_method = method' i, ep_path = path i, ep_code = code i\<rparr>],
                       message_type = [type]\<rparr>]))"

text \<open>
  The body of the loop of \<^verbatim>\<open>processType\<close>. \<^verbatim>\<open>currentSchema\<close> is computed before the
  \<^verbatim>\<open>try\<close>, so an exception there leaves the function; one inside the \<^verbatim>\<open>try\<close> is
  written to the console and the loop goes on.
\<close>

definition processType_body :: "comparator \<Rightarrow> msg_type \<Rightarrow> item \<Rightarrow> run \<Rightarrow> json + run" where
  "processType_body compare type i st =
     (case schema_items_or_schema i type of
        Inl e \<Rightarrow> Inl e
      | Inr currentSchema \<Rightarrow>
          (case findSimilarSchema compare (grouped st) currentSchema of
             Inl err \<Rightarrow> Inr (st\<lparr>console_error := console_error st @ [err]\<rparr>)
           | Inr (Some ix) \<Rightarrow>
               Inr (st\<lparr>grouped := (grouped st)[ix := updateGroupedSchema (grouped st ! ix) i type]\<rparr>)
           | Inr None \<Rightarrow>
               (case addNewSchema (grouped st) i type of
                  Inl err \<Rightarrow> Inr (st\<lparr>console_error := console_error st @ [err]\<rparr>)
                | Inr gs \<Rightarrow> Inr (st\<lparr>grouped := gs\<rparr>))))"

fun processType_loop :: "comparator \<Rightarrow> msg_type \<Rightarrow> item list \<Rightarrow> run \<Rightarrow> json + run" where
  "processType_loop compare type [] st = Inr st"
| "processType_loop compare type (i # is) st =
     (case processType_body compare type i st of
        Inl e \<Rightarrow> Inl e
      | Inr st' \<Rightarrow> processType_loop compare type is st')"

definition processType :: "comparator \<Rightarrow> item list \<Rightarrow> msg_type \<Rightarrow> run \<Rightarrow> json + run" where
  "processType compare array type st =
     processType_loop compare type (filter (\<lambda>i. truthy (schema_opt i type)) array) st"

text \<open>\<^verbatim>\<open>groupBySchema\<close>: the state in which the run ends, or the exception that leaves it.\<close>

definition groupBySchema_run :: "comparator \<Rightarrow> item list \<Rightarrow> json + run" where
  "groupBySchema_run compare array =
     (case processType compare array Res \<lparr>grouped = [], console_error = []\<rparr> of
        Inl e \<Rightarrow> Inl e
      | Inr st \<Rightarrow> processType compare array Req st)"

definition groupBySchema :: "comparator \<Rightarrow> item list \<Rightarrow> json + group list" where
  "groupBySchema compare array =
     (case groupBySchema_run compare array of Inl e \<Rightarrow> Inl e | Inr st \<Rightarrow> Inr (grouped st))"

section \<open>Normalisation and harvesting\<close>

text \<open>
  \<^verbatim>\<open>converter.convertObj(api, {})\<close> of the library \<^verbatim>\<open>swagger2openapi\<close> is a parameter: the
  value its promise resolves with, or the value it rejects with.
\<close>

type_synonym converter = "json \<Rightarrow> json + json"

text \<open>
  \<^verbatim>\<open>convert2V3_2\<close>. In the \<^verbatim>\<open>try\<close> block the destructuring \<^verbatim>\<open>const { openapi } = ...\<close>
  and the argument \<^verbatim>\<open>openapi.openapi\<close> of \<^verbatim>\<open>console.log\<close> are property reads that may
  throw; the handler returns \<^verbatim>\<open>e.options.openapi\<close>.
\<close>

definition convert2V3_2_try :: "converter \<Rightarrow> json \<Rightarrow> json + json" where
  "convert2V3_2_try convertObj api =
     (case convertObj api of
        Inl e \<Rightarrow> Inl e
      | Inr result \<Rightarrow>
          (case get_prop result ''openapi'' of
             Inl e \<Rightarrow> Inl e
           | Inr openapi \<Rightarrow>
               (case get_prop openapi ''openapi'' of
                  Inl e \<Rightarrow> Inl e
                | Inr version \<Rightarrow> Inr openapi)))"

definition convert2V3_2 :: "converter \<Rightarrow> json \<Rightarrow> json + json" where
  "convert2V3_2 convertObj api =
     (case convert2V3_2_try convertObj api of
        Inr openapi \<Rightarrow> Inr openapi
      | Inl e \<Rightarrow>
          (case get_prop e ''options'' of
             Inl e' \<Rightarrow> Inl e'
           | Inr options \<Rightarrow> get_prop options ''openapi''))"

text \<open>
  \<^verbatim>\<open>convert2V3\<close>, the variant that posts the document to a conversion service
  (\<^verbatim>\<open>axios.post\<close>, a parameter) and reads \<^verbatim>\<open>response.data\<close>. Its handler returns the
  argument.
\<close>

definition convert2V3 :: "(json \<Rightarrow> json + json) \<Rightarrow> json \<Rightarrow> json" where
  "convert2V3 post api =
     (case (case post api of Inl e \<Rightarrow> Inl e | Inr response \<Rightarrow> get_prop response ''data'') of
        Inr data \<Rightarrow> data
      | Inl e \<Rightarrow> api)"

text \<open>\<^verbatim>\<open>flatMap\<close> and \<^verbatim>\<open>map\<close> with a callback that may throw: the first exception ends it.\<close>

fun map_throwing :: "('a \<Rightarrow> json + 'b) \<Rightarrow> 'a list \<Rightarrow> json + 'b list" where
  "map_throwing f [] = Inr []"
| "map_throwing f (x # xs) =
     (case f x of
        Inl e \<Rightarrow> Inl e
      | Inr y \<Rightarrow> (case map_throwing f xs of Inl e \<Rightarrow> Inl e | Inr ys \<Rightarrow> Inr (y # ys)))"

fun flatMap_throwing :: "('a \<Rightarrow> json + 'b list) \<Rightarrow> 'a list \<Rightarrow> json + 'b list" where
  "flatMap_throwing f [] = Inr []"
| "flatMap_throwing f (x # xs) =
     (case f x of
        Inl e \<Rightarrow> Inl e
      | Inr ys \<Rightarrow> (case flatMap_throwing f xs of Inl e \<Rightarrow> Inl e | Inr zs \<Rightarrow> Inr (ys @ zs)))"

text \<open>
  The record built for one entry \<^verbatim>\<open>[code, response]\<close> of \<^verbatim>\<open>methodDetails?.responses\<close>;
  \<open>paths\<close> is \<^verbatim>\<open>derefApi.paths\<close>.
\<close>

definition extractSchemas_response ::
  "json \<Rightarrow> string \<Rightarrow> string \<Rightarrow> json \<Rightarrow> string \<times> json \<Rightarrow> json + item" where
  "extractSchemas_response paths path_key method_key methodDetails cr =
     (case get_prop methodDetails ''parameters'' of
        Inl e \<Rightarrow> Inl e
      | Inr pm \<Rightarrow>
          (case get_prop paths path_key of
             Inl e \<Rightarrow> Inl e
           | Inr methods \<Rightarrow>
               (case get_prop methods ''parameters'' of
                  Inl e \<Rightarrow> Inl e
                | Inr pp \<Rightarrow>
                    Inr \<lparr>code = fst cr, path = path_key, method' = method_key, res = snd cr,
                         req = get_opt methodDetails ''requestBody'',
                         parametersMethod = pm, parametersPath = pp\<rparr>)))"

text \<open>The callback of the inner \<^verbatim>\<open>flatMap\<close>, for one entry \<^verbatim>\<open>[method, methodDetails]\<close>.\<close>

definition extractSchemas_method :: "json \<Rightarrow> string \<Rightarrow> string \<times> json \<Rightarrow> json + item list" where
  "extractSchemas_method paths path_key md =
     (case Object_entries (get_opt (snd md) ''responses'') of
        Inl e \<Rightarrow> Inl e
      | Inr responses \<Rightarrow>
          map_throwing (extractSchemas_response paths path_key (fst md) (snd md)) responses)"

text \<open>The callback of the outer \<^verbatim>\<open>flatMap\<close>, for one entry \<^verbatim>\<open>[path, methods]\<close>.\<close>

definition extractSchemas_path :: "json \<Rightarrow> string \<times> json \<Rightarrow> json + item list" where
  "extractSchemas_path paths pm =
     (case Object_entries (snd pm) of
        Inl e \<Rightarrow> Inl e
      | Inr methods \<Rightarrow>
          flatMap_throwing (extractSchemas_method paths (fst pm))
            (filter (\<lambda>md. truthy (get_opt (snd md) ''responses'')) methods))"

text \<open>
  The first statement of \<^verbatim>\<open>extractSchemas\<close>: a document without the \<^verbatim>\<open>openapi\<close> marker is
  replaced by what \<^verbatim>\<open>convert2V3_2\<close> returns.
\<close>

definition extractSchemas_normalize :: "converter \<Rightarrow> json \<Rightarrow> json + json" where
  "extractSchemas_normalize convertObj derefApi =
     (case get_prop derefApi ''openapi'' of
        Inl e \<Rightarrow> Inl e
      | Inr marker \<Rightarrow>
          if \<not> truthy marker then convert2V3_2 convertObj derefApi else Inr derefApi)"

text \<open>The \<^verbatim>\<open>try\<close> block of \<^verbatim>\<open>extractSchemas\<close>: \<^verbatim>\<open>{ schemas, converted }\<close>, or what was thrown.\<close>

definition extractSchemas_try :: "converter \<Rightarrow> json \<Rightarrow> json + item list \<times> json" where
  "extractSchemas_try convertObj derefApi =
     (case extractSchemas_normalize convertObj derefApi of
        Inl e \<Rightarrow> Inl e
      | Inr converted \<Rightarrow>
          (case get_prop converted ''paths'' of
             Inl e \<Rightarrow> Inl e
           | Inr paths \<Rightarrow>
               (case Object_entries paths of
                  Inl e \<Rightarrow> Inl e
                | Inr ps \<Rightarrow>
                    (case flatMap_throwing (extractSchemas_path paths) ps of
                       Inl e \<Rightarrow> Inl e
                     | Inr schemas \<Rightarrow> Inr (schemas, converted)))))"

text \<open>\<^verbatim>\<open>extractSchemas\<close>: the handler logs the exception and returns \<^verbatim>\<open>null\<close> (\<open>None\<close>).\<close>

definition extractSchemas :: "converter \<Rightarrow> json \<Rightarrow> (item list \<times> json) option" where
  "extractSchemas convertObj derefApi =
     (case extractSchemas_try convertObj derefApi of Inl err \<Rightarrow> None | Inr r \<Rightarrow> Some r)"

text \<open>
  The first two statements of \<^verbatim>\<open>computeSizeMetrics\<close> in
  \<^verbatim>\<open>structureAndDatamodelMetrics.js\<close>: the value bound to \<^verbatim>\<open>groupedSchemas\<close>, or the
  exception thrown before. Destructuring \<^verbatim>\<open>null\<close> throws a \<^verbatim>\<open>TypeError\<close>. The metrics
  computed afterwards are not modelled.
\<close>

definition computeSizeMetrics_groupedSchemas ::
  "converter \<Rightarrow> comparator \<Rightarrow> json \<Rightarrow> json + group list" where
  "computeSizeMetrics_groupedSchemas convertObj compare openAPISpec =
     (case extractSchemas convertObj openAPISpec of
        None \<Rightarrow> Inl TypeError
      | Some r \<Rightarrow> groupBySchema compare (fst r))"

section \<open>Notions used to state the properties\<close>

definition nullish :: "json \<Rightarrow> bool" where
  "nullish v = (v = JUndefined \<or> v = JNull)"

text \<open>The value of \<^verbatim>\<open>s.items || s\<close> for a schema \<open>s\<close> that is not \<^verbatim>\<open>undefined\<close> or \<^verbatim>\<open>null\<close>.\<close>

definition fragment :: "json \<Rightarrow> json" where
  "fragment s = (if truthy (get_opt s ''items'') then get_opt s ''items'' else s)"

text \<open>The triple \<^verbatim>\<open>{ method: item.method, path: item.path, code: item.code }\<close>.\<close>

definition endpoint_of :: "item \<Rightarrow> endpoint" where
  "endpoint_of i = \<lparr>ep_method = method' i, ep_path = path i, ep_code = code i\<rparr>"

text \<open>Position of the first element with a property, scanning from the front.\<close>

fun first_index :: "('a \<Rightarrow> bool) \<Rightarrow> 'a list \<Rightarrow> nat option" where
  "first_index P [] = None"
| "first_index P (x # xs) = (if P x then Some 0 else map_option Suc (first_index P xs))"

definition equivalent_to :: "comparator \<Rightarrow> json \<Rightarrow> group \<Rightarrow> bool" where
  "equivalent_to compare destination source = (compare (schema source) destination = Inr True)"

definition throws_on :: "comparator \<Rightarrow> json \<Rightarrow> group \<Rightarrow> bool" where
  "throws_on compare destination source = isl (compare (schema source) destination)"

text \<open>An occurrence: an item of the array that passes the filter of \<^verbatim>\<open>processType(type)\<close>.\<close>

definition has_schema :: "msg_type \<Rightarrow> item \<Rightarrow> bool" where
  "has_schema type i = truthy (schema_opt i type)"

text \<open>The occurrences of an array in the order of the specification: responses, then requests.\<close>

definition occurrences :: "item list \<Rightarrow> (msg_type \<times> item) list" where
  "occurrences array =
     map (Pair Res) (filter (has_schema Res) array) @ map (Pair Req) (filter (has_schema Req) array)"

text \<open>One iteration of the loop on an occurrence, as a function on states.\<close>

definition step :: "comparator \<Rightarrow> msg_type \<times> item \<Rightarrow> run \<Rightarrow> run" where
  "step compare ti st =
     (case processType_body compare (fst ti) (snd ti) st of Inl e \<Rightarrow> st | Inr st' \<Rightarrow> st')"

definition initial :: run where
  "initial = \<lparr>grouped = [], console_error = []\<rparr>"

definition groups_inv :: "group list \<Rightarrow> bool" where
  "groups_inv gs = list_all (\<lambda>g. distinct (endpoints g) \<and> distinct (message_type g)) gs"

text \<open>The group that \<^verbatim>\<open>addNewSchema\<close> appends for a fragment \<open>s\<close>.\<close>

definition new_group :: "json \<Rightarrow> item \<Rightarrow> msg_type \<Rightarrow> group" where
  "new_group s i type = \<lparr>schema = s, endpoints = [endpoint_of i], message_type = [type]\<rparr>"

text \<open>
  The comparator of the specification's error handling: a pair on which \<open>compare\<close> throws
  counts as not equivalent.
\<close>

definition recover :: "comparator \<Rightarrow> comparator" where
  "recover compare a b = (case compare a b of Inl e \<Rightarrow> Inr False | Inr r \<Rightarrow> Inr r)"

text \<open>
  The unwrapping rule in the words of the specification: the \<^verbatim>\<open>items\<close> sub-schema when the
  top-level \<^verbatim>\<open>type\<close> is \<^verbatim>\<open>array\<close> or an \<^verbatim>\<open>items\<close> field is present, the schema itself
  otherwise.
\<close>

definition spec_unwrap :: "json \<Rightarrow> json" where
  "spec_unwrap s =
     (if get_opt s ''type'' = JString ''array'' \<or> ''items'' \<in> set (map fst (own_entries s))
      then get_opt s ''items'' else s)"

text \<open>
  The quantities of the coverage property: the occurrences of a direction, the sum of the
  sizes of the endpoint lists of the groups tagged with a direction, and an occurrence
  being accounted for by a group under its direction.
\<close>

definition occurrences_in_direction :: "msg_type \<Rightarrow> item list \<Rightarrow> nat" where
  "occurrences_in_direction t array = length (filter (has_schema t) array)"

definition endpoints_in_direction :: "msg_type \<Rightarrow> group list \<Rightarrow> nat" where
  "endpoints_in_direction t gs =
     sum_list (map (\<lambda>g. length (endpoints g)) (filter (\<lambda>g. t \<in> set (message_type g)) gs))"

definition accounts_for :: "msg_type \<Rightarrow> item \<Rightarrow> group \<Rightarrow> bool" where
  "accounts_for t i g = (endpoint_of i \<in> set (endpoints g) \<and> t \<in> set (message_type g))"




section \<open>Example inputs\<close>

text \<open>A request or response object whose JSON body has the schema \<open>s\<close>.\<close>

definition json_body :: "json \<Rightarrow> json" where
  "json_body s = JObject [(''content'', JObject [(''application/json'', JObject [(''schema'', s)])])]"

definition mk_item :: "string \<Rightarrow> string \<Rightarrow> string \<Rightarrow> json \<Rightarrow> json \<Rightarrow> item" where
  "mk_item p m c rs rq =
     \<lparr>code = c, path = p, method' = m, res = rs, req = rq,
      parametersMethod = JUndefined, parametersPath = JUndefined\<rparr>"

text \<open>A comparator that never throws: equality of the two schemas.\<close>

definition compare_equal :: comparator where
  "compare_equal a b = Inr (a = b)"

definition user_schema :: json where
  "user_schema = JObject [(''type'', JString ''object'')]"

definition users_schema :: json where
  "users_schema = JObject [(''type'', JString ''array''), (''items'', user_schema)]"

definition text_schema :: json where
  "text_schema = JObject [(''type'', JString ''string'')]"

definition item_a :: item where
  "item_a = mk_item ''/users'' ''get'' ''200'' (json_body users_schema) JUndefined"

definition item_b :: item where
  "item_b = mk_item ''/users'' ''post'' ''201'' (json_body user_schema) (json_body user_schema)"

definition item_c :: item where
  "item_c = mk_item ''/users'' ''post'' ''400'' (json_body text_schema) (json_body user_schema)"

definition ex_array :: "item list" where
  "ex_array = [item_a, item_b, item_c]"

definition ex_result :: "group list" where
  "ex_result =
     [\<lparr>schema = user_schema,
       endpoints =
         [\<lparr>ep_method = ''get'', ep_path = ''/users'', ep_code = ''200''\<rparr>,
          \<lparr>ep_method = ''post'', ep_path = ''/users'', ep_code = ''201''\<rparr>,
          \<lparr>ep_method = ''post'', ep_path = ''/users'', ep_code = ''400''\<rparr>],
       message_type = [Res, Req]\<rparr>,
      \<lparr>schema = text_schema,
       endpoints = [\<lparr>ep_method = ''post'', ep_path = ''/users'', ep_code = ''400''\<rparr>],
       message_type = [Res]\<rparr>]"

text \<open>A state with three groups, the second and third with the same representative.\<close>

definition ex_state :: run where
  "ex_state =
     \<lparr>grouped =
        [new_group text_schema item_c Res, new_group user_schema item_a Res,
         new_group user_schema item_c Res],
      console_error = []\<rparr>"

text \<open>A comparator that throws whenever its first argument is an array.\<close>

definition compare_objects :: comparator where
  "compare_objects a b = (case a of JArray xs \<Rightarrow> Inl TypeError | _ \<Rightarrow> Inr (a = b))"

text \<open>A comparator that throws when a text schema is compared with a user schema.\<close>

definition compare_fragile :: comparator where
  "compare_fragile a b = (if a = text_schema \<and> b = user_schema then Inl TypeError else Inr (a = b))"

definition item_p :: item where
  "item_p = mk_item ''/a'' ''get'' ''200'' (json_body user_schema) JUndefined"

definition item_q :: item where
  "item_q = mk_item ''/b'' ''get'' ''200'' (json_body text_schema) JUndefined"

definition item_r :: item where
  "item_r = mk_item ''/c'' ''get'' ''200'' (json_body user_schema) JUndefined"

definition fragile_state :: run where
  "fragile_state =
     \<lparr>grouped = [new_group user_schema item_p Res, new_group text_schema item_q Res],
      console_error = []\<rparr>"

text \<open>An array schema that declares no \<^verbatim>\<open>items\<close>, and one whose \<^verbatim>\<open>items\<close> is \<^verbatim>\<open>false\<close>.\<close>

definition bare_array_schema :: json where
  "bare_array_schema = JObject [(''type'', JString ''array'')]"

definition closed_array_schema :: json where
  "closed_array_schema = JObject [(''type'', JString ''array''), (''items'', JBool False)]"

definition item_bare :: item where
  "item_bare = mk_item ''/tags'' ''get'' ''200'' (json_body bare_array_schema) JUndefined"

definition item_closed :: item where
  "item_closed = mk_item ''/tags'' ''get'' ''200'' (json_body closed_array_schema) JUndefined"

text \<open>An array of arrays of users.\<close>

definition nested_schema :: json where
  "nested_schema = JObject [(''type'', JString ''array''), (''items'', users_schema)]"

definition item_nested :: item where
  "item_nested = mk_item ''/pages'' ''get'' ''200'' (json_body nested_schema) JUndefined"

text \<open>A state whose first group is a user group and whose second group is a text group.\<close>

definition mixed_state :: run where
  "mixed_state =
     \<lparr>grouped = [new_group user_schema item_a Res, new_group text_schema item_c Res],
      console_error = []\<rparr>"

text \<open>
  An operation that answers with a user and takes a text, and one that answers with a
  text.
\<close>

definition item_u :: item where
  "item_u = mk_item ''/users'' ''post'' ''201'' (json_body user_schema) (json_body text_schema)"

definition item_v :: item where
  "item_v = mk_item ''/notes'' ''get'' ''200'' (json_body text_schema) JUndefined"

text \<open>The groups that \<^verbatim>\<open>groupBySchema\<close> returns for these two items.\<close>

definition uv_groups :: "group list" where
  "uv_groups =
     [\<lparr>schema = user_schema, endpoints = [endpoint_of item_u], message_type = [Res]\<rparr>,
      \<lparr>schema = text_schema, endpoints = [endpoint_of item_v, endpoint_of item_u],
       message_type = [Res, Req]\<rparr>]"

text \<open>
  A document that is neither OpenAPI 3 nor Swagger 2.0, and a converter that rejects with
  an error object that has no \<^verbatim>\<open>options\<close>.
\<close>

definition unsupported_doc :: json where
  "unsupported_doc = JObject [(''swagger'', JString ''1.2'')]"

definition convertObj_rejecting :: converter where
  "convertObj_rejecting api =
     Inl (JObject [(''name'', JString ''S2OError''), (''message'', JString ''Unsupported version'')])"

text \<open>A converter that rejects with an error whose \<^verbatim>\<open>options\<close> hold no \<^verbatim>\<open>openapi\<close>.\<close>

definition convertObj_no_partial :: converter where
  "convertObj_no_partial api =
     Inl (JObject [(''name'', JString ''S2OError''), (''options'', JObject [(''patches'', JNum 0)])])"

text \<open>A conversion service that fails.\<close>

definition post_failing :: "json \<Rightarrow> json + json" where
  "post_failing api = Inl (JObject [(''name'', JString ''AxiosError'')])"

text \<open>A Swagger 2.0 document, and a converter that fails with a partial conversion of it.\<close>

definition swagger_doc :: json where
  "swagger_doc = JObject [(''swagger'', JString ''2.0''), (''paths'', JObject [])]"

definition partial_doc :: json where
  "partial_doc = JObject [(''openapi'', JString ''3.0.0''), (''paths'', JObject [])]"

definition convertObj_partial :: converter where
  "convertObj_partial api =
     Inl (JObject [(''name'', JString ''S2OError''), (''options'', JObject [(''openapi'', partial_doc)])])"

definition pathless_doc :: json where
  "pathless_doc =
     JObject [(''openapi'', JString ''3.1.0''), (''info'', JObject [(''title'', JString ''hooks'')])]"






section \<open>Lemmas about the model\<close>

subsection \<open>Property reads\<close>

lemma get_opt_nullish: "nullish v \<Longrightarrow> get_opt v k = JUndefined"
  by (auto simp: nullish_def)

lemma get_prop_not_nullish: "\<not> nullish v \<Longrightarrow> get_prop v k = Inr (get_opt v k)"
  by (cases v) (auto simp: nullish_def)

lemma get_prop_nullish: "nullish v \<Longrightarrow> get_prop v k = Inl TypeError"
  by (auto simp: nullish_def)

lemma Object_entries_nullish: "nullish v \<Longrightarrow> Object_entries v = Inl TypeError"
  by (auto simp: nullish_def)


lemma truthy_not_nullish: "truthy v \<Longrightarrow> \<not> nullish v"
  by (auto simp: nullish_def)

lemma get_opt_not_nullish: "\<not> nullish (get_opt v k) \<Longrightarrow> \<not> nullish v"
  using get_opt_nullish [of v k] by (auto simp: nullish_def)

lemma body_schema_filtered:
  assumes "has_schema type i"
  shows "body_schema i type = Inr (schema_opt i type)"
proof -
  let ?c = "get_opt (item_at i type) ''content''"
  let ?m = "get_opt ?c ''application/json''"
  have s: "\<not> nullish (get_opt ?m ''schema'')"
    using assms by (simp add: has_schema_def schema_opt_def truthy_not_nullish)
  then have m: "\<not> nullish ?m" by (rule get_opt_not_nullish)
  then have c: "\<not> nullish ?c" by (rule get_opt_not_nullish)
  then have i: "\<not> nullish (item_at i type)" by (rule get_opt_not_nullish)
  show ?thesis
    by (simp add: body_schema_def schema_opt_def get_prop_not_nullish [OF i]
        get_prop_not_nullish [OF c] get_prop_not_nullish [OF m])
qed

lemma schema_items_or_schema_filtered:
  assumes "has_schema type i"
  shows "schema_items_or_schema i type = Inr (fragment (schema_opt i type))"
proof -
  have "\<not> nullish (schema_opt i type)"
    using assms by (simp add: has_schema_def truthy_not_nullish)
  then show ?thesis
    by (simp add: schema_items_or_schema_def body_schema_filtered [OF assms] fragment_def
        get_prop_not_nullish)
qed

subsection \<open>Scanning the groups\<close>

lemma first_index_None: "first_index P xs = None \<longleftrightarrow> (\<forall>x\<in>set xs. \<not> P x)"
  by (induction xs) auto

lemma first_index_Some:
  "first_index P xs = Some k \<longleftrightarrow> k < length xs \<and> P (xs ! k) \<and> (\<forall>j<k. \<not> P (xs ! j))"
proof (induction xs arbitrary: k)
  case Nil
  then show ?case by simp
next
  case (Cons x xs)
  show ?case
  proof (cases "P x")
    case True
    then show ?thesis by (cases k) auto
  next
    case False
    show ?thesis
    proof (cases k)
      case 0
      with False show ?thesis by auto
    next
      case (Suc m)
      have "(\<forall>j<Suc m. \<not> P ((x # xs) ! j)) \<longleftrightarrow> (\<forall>j<m. \<not> P (xs ! j))"
        using False by (auto simp: less_Suc_eq_0_disj)
      with False Suc Cons.IH [of m] show ?thesis by auto
    qed
  qed
qed

lemma Promise_all_Inl: "Promise_all ps = Inl e \<Longrightarrow> Inl e \<in> set ps"
  by (induction ps rule: Promise_all.induct) (auto split: sum.splits)

lemma Promise_all_throws: "\<exists>p\<in>set ps. isl p \<Longrightarrow> isl (Promise_all ps)"
  by (induction ps rule: Promise_all.induct) (auto split: sum.splits)

lemma Promise_all_map_Inr: "Promise_all (map (\<lambda>x. Inr (f x)) xs) = Inr (map f xs)"
  by (induction xs) auto

lemma find_answers:
  "find (\<lambda>result. result \<noteq> None) (map (\<lambda>p. if P (snd p) then Some (fst p) else None) (enumerate n gs))
     = map_option (\<lambda>k. Some (n + k)) (first_index P gs)"
proof (induction gs arbitrary: n)
  case Nil
  then show ?case by simp
next
  case (Cons g gs)
  show ?case
  proof (cases "P g")
    case True
    then show ?thesis by simp
  next
    case False
    then show ?thesis
      using Cons.IH [of "Suc n"] by (simp add: option.map_comp comp_def)
  qed
qed

lemma in_enumerate_snd: "p \<in> set (enumerate n gs) \<Longrightarrow> snd p \<in> set gs"
proof -
  assume "p \<in> set (enumerate n gs)"
  then have "(fst p, snd p) \<in> set (enumerate n gs)" by simp
  then have "fst p - n < length gs \<and> gs ! (fst p - n) = snd p"
    by (auto simp: in_set_enumerate_eq)
  then show ?thesis by (metis nth_mem)
qed

lemma findSimilarSchema_no_throw:
  assumes "\<forall>g\<in>set gs. \<not> throws_on compare d g"
  shows "findSimilarSchema compare gs d = Inr (first_index (equivalent_to compare d) gs)"
proof -
  let ?P = "equivalent_to compare d"
  have "map (findSimilarSchema_callback compare d) (enumerate 0 gs)
      = map (\<lambda>p. Inr (if ?P (snd p) then Some (fst p) else None)) (enumerate 0 gs)"
  proof (rule map_cong [OF refl])
    fix p assume "p \<in> set (enumerate 0 gs)"
    then have "snd p \<in> set gs" by (rule in_enumerate_snd)
    with assms have "\<not> isl (compare (schema (snd p)) d)" by (simp add: throws_on_def)
    then show "findSimilarSchema_callback compare d p
             = Inr (if ?P (snd p) then Some (fst p) else None)"
      by (cases "compare (schema (snd p)) d")
         (auto simp: equivalent_to_def findSimilarSchema_callback_def)
  qed
  then show ?thesis
    unfolding findSimilarSchema_def
    by (simp only: Promise_all_map_Inr find_answers sum.case)
       (cases "first_index ?P gs"; simp)
qed

lemma findSimilarSchema_throw:
  assumes "\<exists>g\<in>set gs. throws_on compare d g"
  shows "\<exists>e. findSimilarSchema compare gs d = Inl e"
proof -
  from assms obtain g where g: "g \<in> set gs" "isl (compare (schema g) d)"
    by (auto simp: throws_on_def)
  then obtain k where k: "k < length gs" "gs ! k = g" by (auto simp: in_set_conv_nth)
  let ?f = "findSimilarSchema_callback compare d"
  have "(k, g) \<in> set (enumerate 0 gs)" using k by (auto simp: in_set_enumerate_eq)
  then have "?f (k, g) \<in> ?f ` set (enumerate 0 gs)" by (rule imageI)
  then have "?f (k, g) \<in> set (map ?f (enumerate 0 gs))" by (simp only: set_map)
  moreover have "isl (?f (k, g))"
    using g by (cases "compare (schema g) d") (auto simp: findSimilarSchema_callback_def)
  ultimately have "isl (Promise_all (map ?f (enumerate 0 gs)))"
    by (intro Promise_all_throws) blast
  then show ?thesis
    unfolding findSimilarSchema_def by (auto split: sum.splits)
qed

lemma findSimilarSchema_Inl:
  assumes "findSimilarSchema compare gs d = Inl e"
  shows "\<exists>g\<in>set gs. compare (schema g) d = Inl e"
proof -
  let ?f = "findSimilarSchema_callback compare d"
  from assms have "Promise_all (map ?f (enumerate 0 gs)) = Inl e"
    unfolding findSimilarSchema_def by (auto split: sum.splits)
  then have "Inl e \<in> set (map ?f (enumerate 0 gs))" by (rule Promise_all_Inl)
  then obtain p where "p \<in> set (enumerate 0 gs)" "?f p = Inl e" by auto
  then have "snd p \<in> set gs" "compare (schema (snd p)) d = Inl e"
    by (auto simp: in_enumerate_snd findSimilarSchema_callback_def split: sum.splits)
  then show ?thesis by blast
qed

lemma findSimilarSchema_cases:
  obtains (throws) e where "findSimilarSchema compare gs d = Inl e" "\<exists>g\<in>set gs. throws_on compare d g"
  | (scans) "findSimilarSchema compare gs d = Inr (first_index (equivalent_to compare d) gs)"
      "\<forall>g\<in>set gs. \<not> throws_on compare d g"
proof (cases "\<exists>g\<in>set gs. throws_on compare d g")
  case True
  with findSimilarSchema_throw [OF True] throws show ?thesis by blast
next
  case False
  then have "\<forall>g\<in>set gs. \<not> throws_on compare d g" by blast
  with findSimilarSchema_no_throw [OF this] scans show ?thesis by blast
qed

subsection \<open>One iteration\<close>

lemma endpoint_same:
  "(ep_path e = ep_path x \<and> ep_method e = ep_method x \<and> ep_code e = ep_code x) \<longleftrightarrow> e = (x::endpoint)"
  by (cases e, cases x) auto

lemma list_ex_endpoint:
  "list_ex (\<lambda>e. ep_path e = ep_path x \<and> ep_method e = ep_method x \<and> ep_code e = ep_code x) es
     \<longleftrightarrow> (x::endpoint) \<in> set es"
  by (simp only: endpoint_same list_ex_iff) auto

lemma updateGroupedSchema_eq:
  "updateGroupedSchema g i type =
     g\<lparr>endpoints := (if endpoint_of i \<in> set (endpoints g) then endpoints g
                      else endpoints g @ [endpoint_of i]),
       message_type := (if type \<in> set (message_type g) then message_type g
                        else message_type g @ [type])\<rparr>"
proof -
  have "list_ex (\<lambda>e. ep_path e = path i \<and> ep_method e = method' i \<and> ep_code e = code i) (endpoints g)
      \<longleftrightarrow> endpoint_of i \<in> set (endpoints g)"
    using list_ex_endpoint [of "endpoint_of i" "endpoints g"] by (simp add: endpoint_of_def)
  then show ?thesis
    by (simp add: updateGroupedSchema_def Let_def endpoint_of_def)
qed

lemma body_throw:
  assumes "schema_items_or_schema i type = Inr cur"
    and "\<exists>g\<in>set (grouped st). throws_on compare cur g"
  shows "\<exists>e. findSimilarSchema compare (grouped st) cur = Inl e \<and>
    processType_body compare type i st = Inr (st\<lparr>console_error := console_error st @ [e]\<rparr>)"
proof -
  from findSimilarSchema_throw [OF assms(2)]
  obtain e where "findSimilarSchema compare (grouped st) cur = Inl e" ..
  then show ?thesis by (simp add: processType_body_def assms(1))
qed

lemma body_merge:
  assumes "schema_items_or_schema i type = Inr cur"
    and "\<forall>g\<in>set (grouped st). \<not> throws_on compare cur g"
    and "first_index (equivalent_to compare cur) (grouped st) = Some ix"
  shows "processType_body compare type i st =
    Inr (st\<lparr>grouped := (grouped st)[ix := updateGroupedSchema (grouped st ! ix) i type]\<rparr>)"
  by (simp add: processType_body_def assms(1,3) findSimilarSchema_no_throw [OF assms(2)])

lemma body_create:
  assumes "schema_items_or_schema i type = Inr cur"
    and "\<forall>g\<in>set (grouped st). \<not> throws_on compare cur g"
    and "first_index (equivalent_to compare cur) (grouped st) = None"
  shows "processType_body compare type i st =
    Inr (st\<lparr>grouped := grouped st @ [new_group cur i type]\<rparr>)"
  by (simp add: processType_body_def addNewSchema_def assms(1,3) new_group_def endpoint_of_def
      findSimilarSchema_no_throw [OF assms(2)])

lemma body_cases:
  assumes "schema_items_or_schema i type = Inr cur"
  obtains (throw) e where "\<exists>g\<in>set (grouped st). throws_on compare cur g"
      "processType_body compare type i st = Inr (st\<lparr>console_error := console_error st @ [e]\<rparr>)"
  | (merge) ix where "\<forall>g\<in>set (grouped st). \<not> throws_on compare cur g"
      "first_index (equivalent_to compare cur) (grouped st) = Some ix"
      "processType_body compare type i st =
         Inr (st\<lparr>grouped := (grouped st)[ix := updateGroupedSchema (grouped st ! ix) i type]\<rparr>)"
  | (create) "\<forall>g\<in>set (grouped st). \<not> throws_on compare cur g"
      "first_index (equivalent_to compare cur) (grouped st) = None"
      "processType_body compare type i st = Inr (st\<lparr>grouped := grouped st @ [new_group cur i type]\<rparr>)"
proof (cases "\<exists>g\<in>set (grouped st). throws_on compare cur g")
  case True
  with body_throw [OF assms True] throw show ?thesis by blast
next
  case False
  then have nt: "\<forall>g\<in>set (grouped st). \<not> throws_on compare cur g" by blast
  show ?thesis
  proof (cases "first_index (equivalent_to compare cur) (grouped st)")
    case None
    with body_create [OF assms nt None] nt create show ?thesis by blast
  next
    case (Some ix)
    with body_merge [OF assms nt Some] nt merge show ?thesis by blast
  qed
qed

lemma body_Inr_schema:
  "processType_body compare type i st = Inr st' \<Longrightarrow> \<exists>cur. schema_items_or_schema i type = Inr cur"
  by (cases "schema_items_or_schema i type") (auto simp: processType_body_def)

lemma body_total:
  assumes "has_schema type i"
  shows "\<exists>st'. processType_body compare type i st = Inr st'"
  using schema_items_or_schema_filtered [OF assms]
  by (rule body_cases [where compare = compare and st = st]) blast+

lemma step_occurrence:
  "has_schema type i \<Longrightarrow> processType_body compare type i st = Inr (step compare (type, i) st)"
  using body_total [of type i compare st] by (auto simp: step_def)

lemma loop_fold:
  "\<forall>i\<in>set xs. has_schema type i \<Longrightarrow>
   processType_loop compare type xs st = Inr (fold (step compare) (map (Pair type) xs) st)"
  by (induction xs arbitrary: st) (simp_all add: step_occurrence)

lemma processType_fold:
  "processType compare array type st =
     Inr (fold (step compare) (map (Pair type) (filter (has_schema type) array)) st)"
  unfolding processType_def
  by (simp only: has_schema_def [symmetric, abs_def]) (rule loop_fold, simp)

lemma groupBySchema_run_fold:
  "groupBySchema_run compare array = Inr (fold (step compare) (occurrences array) initial)"
  by (simp add: groupBySchema_run_def processType_fold occurrences_def initial_def)

lemma groupBySchema_fold:
  "groupBySchema compare array = Inr (grouped (fold (step compare) (occurrences array) initial))"
  by (simp add: groupBySchema_def groupBySchema_run_fold)

subsection \<open>Invariant\<close>

lemma updateGroupedSchema_inv:
  "distinct (endpoints g) \<and> distinct (message_type g) \<Longrightarrow>
   distinct (endpoints (updateGroupedSchema g i type)) \<and>
   distinct (message_type (updateGroupedSchema g i type))"
  by (simp add: updateGroupedSchema_eq)

lemma groups_inv_update:
  assumes "groups_inv gs" "ix < length gs"
  shows "groups_inv (gs[ix := updateGroupedSchema (gs ! ix) i type])"
proof -
  let ?P = "\<lambda>g. distinct (endpoints g) \<and> distinct (message_type g)"
  have all: "\<forall>g\<in>set gs. ?P g" using assms(1) by (simp add: groups_inv_def list_all_iff)
  then have "?P (gs ! ix)" using assms(2) by simp
  then have "?P (updateGroupedSchema (gs ! ix) i type)" by (rule updateGroupedSchema_inv)
  with all have "\<forall>g\<in>set (gs[ix := updateGroupedSchema (gs ! ix) i type]). ?P g"
    using set_update_subset_insert [of gs ix "updateGroupedSchema (gs ! ix) i type"] by blast
  then show ?thesis by (simp add: groups_inv_def list_all_iff)
qed

lemma groups_inv_new: "groups_inv gs \<Longrightarrow> groups_inv (gs @ [new_group s i type])"
  by (simp add: groups_inv_def new_group_def)

lemma body_inv:
  assumes "processType_body compare type i st = Inr st'" "groups_inv (grouped st)"
  shows "groups_inv (grouped st')"
proof -
  from body_Inr_schema [OF assms(1)] obtain cur where "schema_items_or_schema i type = Inr cur" ..
  then show ?thesis
  proof (cases rule: body_cases [where compare = compare and st = st])
    case (throw e)
    with assms show ?thesis by auto
  next
    case (merge ix)
    then have "ix < length (grouped st)" by (simp add: first_index_Some)
    with merge assms groups_inv_update [of "grouped st" ix i type] show ?thesis by auto
  next
    case create
    with assms groups_inv_new [of "grouped st" cur i type] show ?thesis by auto
  qed
qed

lemma step_inv: "groups_inv (grouped st) \<Longrightarrow> groups_inv (grouped (step compare ti st))"
  by (cases "processType_body compare (fst ti) (snd ti) st") (auto simp: step_def dest: body_inv)

lemma fold_step_inv:
  "groups_inv (grouped st) \<Longrightarrow> groups_inv (grouped (fold (step compare) tis st))"
  by (induction tis arbitrary: st) (simp_all add: step_inv)

lemma initial_inv: "groups_inv (grouped initial)"
  by (simp add: initial_def groups_inv_def)

section \<open>The claims\<close>

subsection \<open>C4: no duplicates in a group\<close>

text \<open>
  Claim C4. No group ever holds two endpoints with the same (path, method, code) or the same
  direction twice: this holds of the result of \<^verbatim>\<open>groupBySchema\<close> (which always returns),
  of the state after any number \<open>n\<close> of processed occurrences, and it is kept by one
  iteration of the loop from any state that has it.
\<close>

theorem groups_hold_no_duplicates:
  "(\<exists>gs. groupBySchema compare array = Inr gs \<and> groups_inv gs) \<and>
   groups_inv (grouped (fold (step compare) (take n (occurrences array)) initial)) \<and>
   (groups_inv (grouped st) \<longrightarrow> processType_body compare type i st = Inr st' \<longrightarrow>
      groups_inv (grouped st'))"
proof (intro conjI impI)
  show "\<exists>gs. groupBySchema compare array = Inr gs \<and> groups_inv gs"
    by (simp add: groupBySchema_fold fold_step_inv initial_inv)
  show "groups_inv (grouped (fold (step compare) (take n (occurrences array)) initial))"
    by (simp add: fold_step_inv initial_inv)
  show "groups_inv (grouped st')"
    if "groups_inv (grouped st)" "processType_body compare type i st = Inr st'"
    using that body_inv by blast
qed

theorem groups_hold_no_duplicates_witness:
  "groupBySchema compare_equal ex_array = Inr ex_result \<and>
   groups_inv ex_result \<and>
   processType_body compare_equal Req item_b \<lparr>grouped = ex_result, console_error = []\<rparr>
     = Inr \<lparr>grouped = ex_result, console_error = []\<rparr>"
proof -
  have run: "groupBySchema compare_equal ex_array = Inr ex_result"
    by code_simp
  have body: "processType_body compare_equal Req item_b
      \<lparr>grouped = ex_result, console_error = []\<rparr> = Inr \<lparr>grouped = ex_result, console_error = []\<rparr>"
    by code_simp
  from groups_hold_no_duplicates [of compare_equal ex_array 0
      "\<lparr>grouped = ex_result, console_error = []\<rparr>" Req item_b
      "\<lparr>grouped = ex_result, console_error = []\<rparr>"] run
  have "groups_inv ex_result" by auto
  with run body show ?thesis by simp
qed

subsection \<open>C2: responses first, then requests\<close>

lemma body_tags:
  assumes body: "processType_body compare type i st = Inr st'"
    and old: "\<forall>g\<in>set (grouped st). Q (message_type g)"
    and new: "Q [type]"
    and add: "\<And>ts. Q ts \<Longrightarrow> Q (if type \<in> set ts then ts else ts @ [type])"
  shows "\<forall>g\<in>set (grouped st'). Q (message_type g)"
proof -
  from body_Inr_schema [OF body] obtain cur where "schema_items_or_schema i type = Inr cur" ..
  then show ?thesis
  proof (cases rule: body_cases [where compare = compare and st = st])
    case (throw e)
    with body old show ?thesis by auto
  next
    case (merge ix)
    let ?g = "updateGroupedSchema (grouped st ! ix) i type"
    from merge have ix: "ix < length (grouped st)" by (simp add: first_index_Some)
    then have "Q (message_type (grouped st ! ix))" using old by simp
    then have "Q (message_type ?g)" using add by (simp add: updateGroupedSchema_eq)
    moreover have "set ((grouped st)[ix := ?g]) \<subseteq> insert ?g (set (grouped st))"
      by (rule set_update_subset_insert)
    ultimately have "\<forall>g\<in>set ((grouped st)[ix := ?g]). Q (message_type g)" using old by blast
    with merge body show ?thesis by auto
  next
    case create
    with body old new show ?thesis by (auto simp: new_group_def)
  qed
qed

lemma step_tags:
  assumes "\<forall>g\<in>set (grouped st). Q (message_type g)" "Q [fst ti]"
    "\<And>ts. Q ts \<Longrightarrow> Q (if fst ti \<in> set ts then ts else ts @ [fst ti])"
  shows "\<forall>g\<in>set (grouped (step compare ti st)). Q (message_type g)"
proof (cases "processType_body compare (fst ti) (snd ti) st")
  case (Inl e)
  with assms(1) show ?thesis by (simp add: step_def)
next
  case (Inr st')
  from body_tags [of compare "fst ti" "snd ti" st st' Q, OF Inr assms] Inr
  show ?thesis by (simp add: step_def)
qed

lemma fold_step_tags:
  assumes "\<forall>g\<in>set (grouped st). Q (message_type g)" "Q [type]"
    "\<And>ts. Q ts \<Longrightarrow> Q (if type \<in> set ts then ts else ts @ [type])"
  shows "\<forall>g\<in>set (grouped (fold (step compare) (map (Pair type) xs) st)). Q (message_type g)"
  using assms(1)
proof (induction xs arbitrary: st)
  case Nil
  then show ?case by simp
next
  case (Cons x xs)
  have "\<forall>g\<in>set (grouped (step compare (type, x) st)). Q (message_type g)"
  proof (rule step_tags)
    show "\<forall>g\<in>set (grouped st). Q (message_type g)" by (rule Cons.prems)
    show "Q [fst (type, x)]" using assms(2) by simp
    show "Q (if fst (type, x) \<in> set ts then ts else ts @ [fst (type, x)])" if "Q ts" for ts
      using assms(3) [OF that] by (simp only: fst_conv)
  qed
  from Cons.IH [OF this] show ?case by simp
qed

lemma response_pass_tags:
  "\<forall>g\<in>set (grouped (fold (step compare) (map (Pair Res) xs) initial)). message_type g = [Res]"
  by (rule fold_step_tags) (simp_all add: initial_def)

lemma request_pass_tags:
  assumes "\<forall>g\<in>set (grouped st). message_type g = [Res]"
  shows "\<forall>g\<in>set (grouped (fold (step compare) (map (Pair Req) xs) st)).
           message_type g \<in> {[Res], [Res, Req], [Req]}"
  by (rule fold_step_tags) (use assms in auto)

text \<open>
  Claim C2. A run of \<^verbatim>\<open>groupBySchema\<close> is the loop body applied to all occurrences with a
  response schema, in the order of the array, and then to all occurrences with a request
  schema, in the order of the array. When the response pass ends every group is tagged
  \<^verbatim>\<open>res\<close> only, and in the result no group has \<^verbatim>\<open>req\<close> before \<^verbatim>\<open>res\<close>.
\<close>

theorem responses_then_requests:
  "groupBySchema_run compare array =
     Inr (fold (step compare)
            (map (Pair Res) (filter (has_schema Res) array) @
             map (Pair Req) (filter (has_schema Req) array)) initial) \<and>
   list_all (\<lambda>g. message_type g = [Res])
     (grouped (fold (step compare) (map (Pair Res) (filter (has_schema Res) array)) initial)) \<and>
   (\<exists>gs. groupBySchema compare array = Inr gs \<and>
      list_all (\<lambda>g. message_type g = [Res] \<or> message_type g = [Res, Req] \<or> message_type g = [Req]) gs)"
proof (intro conjI)
  let ?res = "map (Pair Res) (filter (has_schema Res) array)"
  let ?req = "map (Pair Req) (filter (has_schema Req) array)"
  show "groupBySchema_run compare array = Inr (fold (step compare) (?res @ ?req) initial)"
    using groupBySchema_run_fold [of compare array] by (simp only: occurrences_def)
  have res: "\<forall>g\<in>set (grouped (fold (step compare) ?res initial)). message_type g = [Res]"
    by (rule response_pass_tags)
  then show "list_all (\<lambda>g. message_type g = [Res]) (grouped (fold (step compare) ?res initial))"
    by (simp add: list_all_iff)
  from request_pass_tags [OF res, of compare "filter (has_schema Req) array"]
  show "\<exists>gs. groupBySchema compare array = Inr gs \<and>
      list_all (\<lambda>g. message_type g = [Res] \<or> message_type g = [Res, Req] \<or> message_type g = [Req]) gs"
    by (simp add: groupBySchema_fold occurrences_def list_all_iff)
qed

theorem responses_then_requests_witness:
  "groupBySchema_run compare_equal ex_array = Inr \<lparr>grouped = ex_result, console_error = []\<rparr> \<and>
   fold (step compare_equal)
     [(Res, item_a), (Res, item_b), (Res, item_c),
      (Req, item_b), (Req, item_c)] initial
     = \<lparr>grouped = ex_result, console_error = []\<rparr>"
proof -
  have occ: "map (Pair Res) (filter (has_schema Res) ex_array) @
             map (Pair Req) (filter (has_schema Req) ex_array)
     = [(Res, item_a), (Res, item_b), (Res, item_c),
        (Req, item_b), (Req, item_c)]"
    by code_simp
  have run: "groupBySchema_run compare_equal ex_array = Inr \<lparr>grouped = ex_result, console_error = []\<rparr>"
    by code_simp
  from responses_then_requests [of compare_equal ex_array] occ run
  show ?thesis by simp
qed

subsection \<open>C1: the first equivalent group takes the occurrence\<close>

text \<open>
  Claim C1, as stated, fails: the request body of \<open>item_b\<close> is equivalent to the
  representative of the first group, but the comparison with the second group throws, and
  the occurrence is not merged into the first group: the groups stay as they were.
\<close>

theorem equivalent_group_is_not_joined_counterexample:
  "has_schema Req item_b \<and>
   fragment (schema_opt item_b Req) = user_schema \<and>
   compare_fragile (schema (grouped mixed_state ! 0)) user_schema = Inr True \<and>
   processType_body compare_fragile Req item_b mixed_state
     = Inr (mixed_state\<lparr>console_error := [TypeError]\<rparr>) \<and>
   processType_body compare_fragile Req item_b mixed_state
     \<noteq> Inr (mixed_state\<lparr>grouped := (grouped mixed_state)
              [0 := updateGroupedSchema (grouped mixed_state ! 0) item_b Req]\<rparr>)"
  by code_simp

text \<open>
  Claim C1, amended. For an occurrence with fragment \<open>cur\<close>, when no comparison against an
  existing group throws: either there is a first group, in creation order, whose
  representative is equivalent to \<open>cur\<close> (all earlier ones are not), and the iteration
  replaces exactly that group by itself with the triple and the direction added unless
  already there; or no representative is equivalent and the iteration appends a new group
  for \<open>cur\<close>.
\<close>

theorem merge_into_first_equivalent_group:
  assumes "has_schema type i"
    and "cur = fragment (schema_opt i type)"
    and "\<forall>g\<in>set (grouped st). \<not> isl (compare (schema g) cur)"
  shows "(\<exists>ix<length (grouped st).
            compare (schema (grouped st ! ix)) cur = Inr True \<and>
            (\<forall>j<ix. compare (schema (grouped st ! j)) cur = Inr False) \<and>
            processType_body compare type i st =
              Inr (st\<lparr>grouped := (grouped st)
                 [ix := (grouped st ! ix)
                    \<lparr>endpoints :=
                       (if endpoint_of i \<in> set (endpoints (grouped st ! ix))
                        then endpoints (grouped st ! ix)
                        else endpoints (grouped st ! ix) @ [endpoint_of i]),
                     message_type :=
                       (if type \<in> set (message_type (grouped st ! ix))
                        then message_type (grouped st ! ix)
                        else message_type (grouped st ! ix) @ [type])\<rparr>]\<rparr>))
       \<or> ((\<forall>g\<in>set (grouped st). compare (schema g) cur = Inr False) \<and>
           processType_body compare type i st =
             Inr (st\<lparr>grouped := grouped st @
                 [\<lparr>schema = cur, endpoints = [endpoint_of i], message_type = [type]\<rparr>]\<rparr>))"
proof -
  have cur: "schema_items_or_schema i type = Inr cur"
    using assms(1,2) by (simp add: schema_items_or_schema_filtered)
  have nt: "\<forall>g\<in>set (grouped st). \<not> throws_on compare cur g"
    using assms(3) by (simp add: throws_on_def)
  have neg: "compare (schema g) cur = Inr False"
    if "g \<in> set (grouped st)" "\<not> equivalent_to compare cur g" for g
    using that assms(3) by (cases "compare (schema g) cur") (auto simp: equivalent_to_def)
  show ?thesis
  proof (cases "first_index (equivalent_to compare cur) (grouped st)")
    case None
    then have "\<forall>g\<in>set (grouped st). compare (schema g) cur = Inr False"
      using neg by (simp add: first_index_None)
    with body_create [OF cur nt None] show ?thesis by (simp add: new_group_def)
  next
    case (Some ix)
    then have ix: "ix < length (grouped st)" "equivalent_to compare cur (grouped st ! ix)"
      "\<forall>j<ix. \<not> equivalent_to compare cur (grouped st ! j)"
      by (simp_all add: first_index_Some)
    have "\<forall>j<ix. compare (schema (grouped st ! j)) cur = Inr False"
      using ix(1,3) neg by simp
    with ix(1,2) body_merge [OF cur nt Some] show ?thesis
      by (intro disjI1 exI [of _ ix]) (simp add: equivalent_to_def updateGroupedSchema_eq)
  qed
qed

theorem merge_into_first_equivalent_group_witness:
  "has_schema Req item_b \<and>
   fragment (schema_opt item_b Req) = user_schema \<and>
   list_all (\<lambda>g. \<not> isl (compare_equal (schema g) user_schema)) (grouped ex_state) \<and>
   processType_body compare_equal Req item_b ex_state
     = Inr (ex_state\<lparr>grouped := (grouped ex_state)
         [1 := (grouped ex_state ! 1)
            \<lparr>endpoints := endpoints (grouped ex_state ! 1) @ [endpoint_of item_b],
             message_type := [Res, Req]\<rparr>]\<rparr>)"
proof -
  have a: "has_schema Req item_b" by code_simp
  have b: "user_schema = fragment (schema_opt item_b Req)" by code_simp
  have c: "\<forall>g\<in>set (grouped ex_state). \<not> isl (compare_equal (schema g) user_schema)"
    by (simp add: compare_equal_def)
  have d: "processType_body compare_equal Req item_b ex_state
     = Inr (ex_state\<lparr>grouped := (grouped ex_state)
         [1 := (grouped ex_state ! 1)
            \<lparr>endpoints := endpoints (grouped ex_state ! 1) @ [endpoint_of item_b],
             message_type := [Res, Req]\<rparr>]\<rparr>)"
    by code_simp
  note merge_into_first_equivalent_group
    [where type = Req and i = item_b and cur = user_schema and st = ex_state
       and compare = compare_equal, OF a b c]
  with a b c d show ?thesis by (simp add: list_all_iff)
qed

subsection \<open>C5: the representative of a group stays\<close>

lemma body_schemas:
  assumes "processType_body compare type i st = Inr st'"
  shows "take (length (grouped st)) (map schema (grouped st')) = map schema (grouped st)"
proof -
  from body_Inr_schema [OF assms] obtain cur where "schema_items_or_schema i type = Inr cur" ..
  then show ?thesis
  proof (cases rule: body_cases [where compare = compare and st = st])
    case (throw e)
    with assms show ?thesis by auto
  next
    case (merge ix)
    have "map schema ((grouped st)[ix := updateGroupedSchema (grouped st ! ix) i type])
        = (map schema (grouped st))[ix := schema (grouped st ! ix)]"
      by (simp add: map_update updateGroupedSchema_eq)
    also have "\<dots> = map schema (grouped st)"
      by (cases "ix < length (grouped st)") (simp_all add: list_update_same_conv list_update_beyond)
    finally show ?thesis using merge assms by auto
  next
    case create
    with assms show ?thesis by auto
  qed
qed

lemma body_length:
  assumes "processType_body compare type i st = Inr st'"
  shows "length (grouped st) \<le> length (grouped st')"
proof -
  from body_Inr_schema [OF assms] obtain cur where "schema_items_or_schema i type = Inr cur" ..
  then show ?thesis
    by (cases rule: body_cases [where compare = compare and st = st]) (use assms in auto)
qed

lemma loop_schemas:
  "processType_loop compare type xs st = Inr st' \<Longrightarrow>
   length (grouped st) \<le> length (grouped st') \<and>
   take (length (grouped st)) (map schema (grouped st')) = map schema (grouped st)"
proof (induction xs arbitrary: st)
  case Nil
  then show ?case by simp
next
  case (Cons x xs)
  from Cons.prems obtain st1 where b: "processType_body compare type x st = Inr st1"
    and l: "processType_loop compare type xs st1 = Inr st'"
    by (auto split: sum.splits)
  note s1 = body_schemas [OF b] body_length [OF b]
  note s2 = Cons.IH [OF l]
  have "take (length (grouped st)) (map schema (grouped st'))
      = take (length (grouped st)) (take (length (grouped st1)) (map schema (grouped st')))"
    using s1(2) by (simp add: min_absorb1)
  also have "\<dots> = take (length (grouped st)) (map schema (grouped st1))"
    using s2 by simp
  finally show ?case using s1 s2 by simp
qed

text \<open>
  Claim C5. An iteration that merges an occurrence into the group at position \<open>ix\<close> leaves
  the number of groups, every representative schema and every other group as they were;
  an iteration that creates a group appends one whose representative is the fragment of
  the occurrence; and whatever a pass does, the representatives of the groups that existed
  before it are the same after it.
\<close>

theorem representative_is_permanent:
  assumes "schema_items_or_schema i type = Inr cur"
  shows "(findSimilarSchema compare (grouped st) cur = Inr (Some ix) \<longrightarrow>
            (\<exists>st'. processType_body compare type i st = Inr st' \<and>
               length (grouped st') = length (grouped st) \<and>
               map schema (grouped st') = map schema (grouped st) \<and>
               (\<forall>j<length (grouped st). j \<noteq> ix \<longrightarrow> grouped st' ! j = grouped st ! j) \<and>
               console_error st' = console_error st)) \<and>
         (findSimilarSchema compare (grouped st) cur = Inr None \<longrightarrow>
            (\<exists>g. processType_body compare type i st = Inr (st\<lparr>grouped := grouped st @ [g]\<rparr>) \<and>
               schema g = cur)) \<and>
         (\<forall>st'. processType_loop compare type' xs st = Inr st' \<longrightarrow>
            length (grouped st) \<le> length (grouped st') \<and>
            (\<forall>j<length (grouped st). schema (grouped st' ! j) = schema (grouped st ! j)))"
proof (intro conjI impI allI)
  assume f: "findSimilarSchema compare (grouped st) cur = Inr (Some ix)"
  let ?st' = "st\<lparr>grouped := (grouped st)[ix := updateGroupedSchema (grouped st ! ix) i type]\<rparr>"
  have b: "processType_body compare type i st = Inr ?st'"
    by (simp add: processType_body_def assms f)
  from body_schemas [OF b] have "map schema (grouped ?st') = map schema (grouped st)" by simp
  with b show "\<exists>st'. processType_body compare type i st = Inr st' \<and>
               length (grouped st') = length (grouped st) \<and>
               map schema (grouped st') = map schema (grouped st) \<and>
               (\<forall>j<length (grouped st). j \<noteq> ix \<longrightarrow> grouped st' ! j = grouped st ! j) \<and>
               console_error st' = console_error st"
    by (intro exI [of _ ?st']) simp
next
  assume f: "findSimilarSchema compare (grouped st) cur = Inr None"
  show "\<exists>g. processType_body compare type i st = Inr (st\<lparr>grouped := grouped st @ [g]\<rparr>) \<and> schema g = cur"
    by (intro exI [of _ "new_group cur i type"])
       (simp add: processType_body_def addNewSchema_def assms f new_group_def endpoint_of_def)
next
  fix st' assume l: "processType_loop compare type' xs st = Inr st'"
  from loop_schemas [OF l] show "length (grouped st) \<le> length (grouped st')" by simp
next
  fix st' j assume l: "processType_loop compare type' xs st = Inr st'" and j: "j < length (grouped st)"
  from loop_schemas [OF l] have le: "length (grouped st) \<le> length (grouped st')"
    and tk: "take (length (grouped st)) (map schema (grouped st')) = map schema (grouped st)"
    by simp_all
  have "schema (grouped st' ! j) = take (length (grouped st)) (map schema (grouped st')) ! j"
    using j le by simp
  also have "\<dots> = schema (grouped st ! j)" using j by (simp only: tk) simp
  finally show "schema (grouped st' ! j) = schema (grouped st ! j)" .
qed

theorem representative_is_permanent_witness:
  "schema_items_or_schema item_b Req = Inr user_schema \<and>
   findSimilarSchema compare_equal (grouped ex_state) user_schema = Inr (Some 1) \<and>
   findSimilarSchema compare_equal (grouped initial) user_schema = Inr None \<and>
   (\<exists>st'. processType_body compare_equal Req item_b ex_state = Inr st' \<and>
      map schema (grouped st') = map schema (grouped ex_state) \<and>
      grouped st' ! 0 = grouped ex_state ! 0 \<and> grouped st' ! 2 = grouped ex_state ! 2) \<and>
   (\<exists>g. processType_body compare_equal Req item_b initial
           = Inr (initial\<lparr>grouped := grouped initial @ [g]\<rparr>) \<and> schema g = user_schema) \<and>
   (\<exists>st'. processType_loop compare_equal Req [item_b, item_c] ex_state = Inr st' \<and>
      schema (grouped st' ! 0) = schema (grouped ex_state ! 0))"
proof -
  have a: "schema_items_or_schema item_b Req = Inr user_schema" by code_simp
  have b: "findSimilarSchema compare_equal (grouped ex_state) user_schema = Inr (Some 1)"
    by code_simp
  have c: "findSimilarSchema compare_equal (grouped initial) user_schema = Inr None"
    by code_simp
  have n: "length (grouped ex_state) = 3" by code_simp
  have h: "has_schema Req item_b" "has_schema Req item_c" by code_simp+
  have "processType_loop compare_equal Req [item_b, item_c] ex_state
      = Inr (fold (step compare_equal) (map (Pair Req) [item_b, item_c]) ex_state)"
    by (rule loop_fold) (simp add: h)
  then obtain st' where
    d: "processType_loop compare_equal Req [item_b, item_c] ex_state = Inr st'" ..
  from representative_is_permanent [where compare = compare_equal and st = ex_state and ix = 1
      and type' = Req and xs = "[item_b, item_c]", OF a] b d n
  have "(\<exists>st'. processType_body compare_equal Req item_b ex_state = Inr st' \<and>
      map schema (grouped st') = map schema (grouped ex_state) \<and>
      grouped st' ! 0 = grouped ex_state ! 0 \<and> grouped st' ! 2 = grouped ex_state ! 2) \<and>
    schema (grouped st' ! 0) = schema (grouped ex_state ! 0)"
    by auto
  moreover
  from representative_is_permanent [where compare = compare_equal and st = initial, OF a] c
  have "\<exists>g. processType_body compare_equal Req item_b initial
           = Inr (initial\<lparr>grouped := grouped initial @ [g]\<rparr>) \<and> schema g = user_schema"
    by blast
  ultimately show ?thesis using a b c d by blast
qed

subsection \<open>C7: a comparison that throws\<close>

text \<open>
  Claim C7, as stated, fails: with a comparator that throws on one pair, the occurrence
  \<open>item_r\<close> is equivalent to the first group and yet ends in no group, whereas treating
  the throwing pair as not equivalent would merge it into the first group.
\<close>

theorem throwing_pair_is_not_skipped_counterexample:
  "groupBySchema compare_fragile [item_p, item_q, item_r]
     = Inr [new_group user_schema item_p Res, new_group text_schema item_q Res] \<and>
   groupBySchema (recover compare_fragile) [item_p, item_q, item_r]
     = Inr [(new_group user_schema item_p Res)
              \<lparr>endpoints := [endpoint_of item_p, endpoint_of item_r]\<rparr>,
            new_group text_schema item_q Res] \<and>
   groupBySchema compare_fragile [item_p, item_q, item_r]
     \<noteq> groupBySchema (recover compare_fragile) [item_p, item_q, item_r]"
  by code_simp

text \<open>
  Claim C7, amended. A run of \<^verbatim>\<open>groupBySchema\<close> always returns. When any comparison of
  an occurrence against the existing groups throws, the iteration catches the exception
  thrown by the first such group, writes it to the console and leaves the groups as they
  were: the occurrence is skipped, and the loop goes on with the next one.
\<close>

theorem comparison_error_skips_occurrence:
  "(\<exists>st. groupBySchema_run compare array = Inr st) \<and>
   (has_schema type i \<longrightarrow>
    (\<exists>g\<in>set (grouped st). isl (compare (schema g) (fragment (schema_opt i type)))) \<longrightarrow>
      (\<exists>e. (\<exists>g\<in>set (grouped st). compare (schema g) (fragment (schema_opt i type)) = Inl e) \<and>
           processType_body compare type i st = Inr (st\<lparr>console_error := console_error st @ [e]\<rparr>) \<and>
           processType_loop compare type (i # xs) st
             = processType_loop compare type xs (st\<lparr>console_error := console_error st @ [e]\<rparr>)))"
proof (intro conjI impI)
  show "\<exists>st. groupBySchema_run compare array = Inr st"
    by (simp add: groupBySchema_run_fold)
next
  let ?cur = "fragment (schema_opt i type)"
  assume h: "has_schema type i" and t: "\<exists>g\<in>set (grouped st). isl (compare (schema g) ?cur)"
  from t have "\<exists>g\<in>set (grouped st). throws_on compare ?cur g" by (simp add: throws_on_def)
  from body_throw [OF schema_items_or_schema_filtered [OF h] this]
  obtain e where e: "findSimilarSchema compare (grouped st) ?cur = Inl e"
    "processType_body compare type i st = Inr (st\<lparr>console_error := console_error st @ [e]\<rparr>)"
    by blast
  from findSimilarSchema_Inl [OF e(1)] e(2)
  show "\<exists>e. (\<exists>g\<in>set (grouped st). compare (schema g) ?cur = Inl e) \<and>
           processType_body compare type i st = Inr (st\<lparr>console_error := console_error st @ [e]\<rparr>) \<and>
           processType_loop compare type (i # xs) st
             = processType_loop compare type xs (st\<lparr>console_error := console_error st @ [e]\<rparr>)"
    by (intro exI [of _ e]) simp
qed

theorem comparison_error_skips_occurrence_witness:
  "has_schema Res item_r \<and>
   fragment (schema_opt item_r Res) = user_schema \<and>
   isl (compare_fragile (schema (grouped fragile_state ! 1)) user_schema) \<and>
   processType_body compare_fragile Res item_r fragile_state
     = Inr (fragile_state\<lparr>console_error := [TypeError]\<rparr>)"
proof -
  have a: "has_schema Res item_r" by code_simp
  have b: "fragment (schema_opt item_r Res) = user_schema" by code_simp
  have c: "isl (compare_fragile (schema (grouped fragile_state ! 1)) user_schema)" by code_simp
  have m: "grouped fragile_state ! 1 \<in> set (grouped fragile_state)"
    by (simp add: fragile_state_def)
  have d: "\<forall>g\<in>set (grouped fragile_state). \<forall>e. compare_fragile (schema g) user_schema = Inl e \<longrightarrow> e = TypeError"
    by (simp add: compare_fragile_def)
  have n: "console_error fragile_state = []" by (simp add: fragile_state_def)
  from comparison_error_skips_occurrence [of compare_fragile "[]" Res item_r fragile_state "[]"]
    a b c m d
  have "processType_body compare_fragile Res item_r fragile_state
     = Inr (fragile_state\<lparr>console_error := console_error fragile_state @ [TypeError]\<rparr>)"
    by (simp only: b) blast
  with a b c n show ?thesis by simp
qed

subsection \<open>C3: the fragment of a body schema\<close>

text \<open>
  Claim C3, as stated, fails: for a body schema of type \<^verbatim>\<open>array\<close> without \<^verbatim>\<open>items\<close>, and
  for one whose \<^verbatim>\<open>items\<close> is \<^verbatim>\<open>false\<close>, the fragment is the body schema itself, not its
  \<^verbatim>\<open>items\<close>.
\<close>

theorem array_type_alone_does_not_unwrap_counterexample:
  "has_schema Res item_bare \<and>
   schema_items_or_schema item_bare Res = Inr bare_array_schema \<and>
   spec_unwrap (schema_opt item_bare Res) = JUndefined \<and>
   schema_items_or_schema item_bare Res \<noteq> Inr (spec_unwrap (schema_opt item_bare Res)) \<and>
   has_schema Res item_closed \<and>
   schema_items_or_schema item_closed Res = Inr closed_array_schema \<and>
   spec_unwrap (schema_opt item_closed Res) = JBool False \<and>
   schema_items_or_schema item_closed Res \<noteq> Inr (spec_unwrap (schema_opt item_closed Res))"
  by code_simp

text \<open>
  Claim C3, amended. For an occurrence, the fragment that is compared, and that
  \<^verbatim>\<open>addNewSchema\<close> stores as representative, is the value of the body schema's \<^verbatim>\<open>items\<close>
  when that value is truthy, and the body schema itself otherwise; \<^verbatim>\<open>type\<close> is not
  read, and the fragment is taken as it is, whatever it contains.
\<close>

theorem fragment_is_truthy_items_or_schema:
  assumes "has_schema type i"
  shows "schema_items_or_schema i type =
           Inr (if truthy (get_opt (schema_opt i type) ''items'')
                then get_opt (schema_opt i type) ''items'' else schema_opt i type) \<and>
         addNewSchema gs i type =
           Inr (gs @ [\<lparr>schema = (if truthy (get_opt (schema_opt i type) ''items'')
                                    then get_opt (schema_opt i type) ''items''
                                    else schema_opt i type),
                        endpoints = [endpoint_of i], message_type = [type]\<rparr>])"
  using schema_items_or_schema_filtered [OF assms]
  by (simp add: addNewSchema_def fragment_def endpoint_of_def)

theorem fragment_is_truthy_items_or_schema_witness:
  "has_schema Res item_nested \<and>
   schema_opt item_nested Res = nested_schema \<and>
   get_opt nested_schema ''items'' = users_schema \<and>
   schema_items_or_schema item_nested Res = Inr users_schema \<and>
   users_schema \<noteq> user_schema \<and>
   has_schema Res item_bare \<and>
   schema_items_or_schema item_bare Res = Inr bare_array_schema"
proof -
  have a: "has_schema Res item_nested" by code_simp
  have b: "schema_opt item_nested Res = nested_schema" by code_simp
  have c: "get_opt nested_schema ''items'' = users_schema" by code_simp
  have d: "truthy users_schema" "users_schema \<noteq> user_schema" by code_simp+
  have e: "has_schema Res item_bare" by code_simp
  have f: "schema_opt item_bare Res = bare_array_schema" by code_simp
  have g: "get_opt bare_array_schema ''items'' = JUndefined" by code_simp
  from fragment_is_truthy_items_or_schema [OF a, of "[]"] b c d
  have "schema_items_or_schema item_nested Res = Inr users_schema" by simp
  moreover
  from fragment_is_truthy_items_or_schema [OF e, of "[]"] f g
  have "schema_items_or_schema item_bare Res = Inr bare_array_schema" by simp
  ultimately show ?thesis using a b c d e by simp
qed

subsection \<open>C6: coverage\<close>

lemma accounts_for_update:
  "accounts_for t i g \<Longrightarrow> accounts_for t i (updateGroupedSchema g i' type)"
  by (auto simp: accounts_for_def updateGroupedSchema_eq)

lemma accounts_for_updated: "accounts_for type i (updateGroupedSchema g i type)"
  by (auto simp: accounts_for_def updateGroupedSchema_eq)

lemma body_keeps_account:
  assumes body: "processType_body compare type i' st = Inr st'"
    and old: "\<exists>g\<in>set (grouped st). accounts_for t i g"
  shows "\<exists>g\<in>set (grouped st'). accounts_for t i g"
proof -
  from old obtain g where g: "g \<in> set (grouped st)" "accounts_for t i g" by blast
  from body_Inr_schema [OF body] obtain cur where "schema_items_or_schema i' type = Inr cur" ..
  then show ?thesis
  proof (cases rule: body_cases [where compare = compare and st = st])
    case (throw e)
    with body old show ?thesis by auto
  next
    case (merge ix)
    let ?g = "updateGroupedSchema (grouped st ! ix) i' type"
    from merge body have st': "grouped st' = (grouped st)[ix := ?g]" by auto
    from g(1) obtain k where k: "k < length (grouped st)" "grouped st ! k = g"
      by (auto simp: in_set_conv_nth)
    show ?thesis
    proof (cases "k = ix")
      case True
      with k g(2) have "accounts_for t i ?g" by (auto intro: accounts_for_update)
      moreover have "?g \<in> set (grouped st')" using k True by (simp add: st' set_update_memI)
      ultimately show ?thesis by blast
    next
      case False
      with k have "grouped st' ! k = g" "k < length (grouped st')" by (simp_all add: st')
      then have "g \<in> set (grouped st')" by (metis nth_mem)
      with g(2) show ?thesis by blast
    qed
  next
    case create
    with body g show ?thesis by auto
  qed
qed

lemma body_accounts_local:
  assumes h: "has_schema type i"
    and nt: "\<forall>g\<in>set (grouped st). \<not> isl (compare (schema g) (fragment (schema_opt i type)))"
  shows "\<exists>st'. processType_body compare type i st = Inr st' \<and>
           (\<exists>g\<in>set (grouped st'). accounts_for type i g)"
  using schema_items_or_schema_filtered [OF h]
proof (cases rule: body_cases [where compare = compare and st = st])
  case (throw e)
  with nt show ?thesis by (auto simp: throws_on_def)
next
  case (merge ix)
  then have ix: "ix < length (grouped st)" by (simp add: first_index_Some)
  let ?g = "updateGroupedSchema (grouped st ! ix) i type"
  have "?g \<in> set ((grouped st)[ix := ?g])" using ix by (simp add: set_update_memI)
  with merge(3) accounts_for_updated [of type i "grouped st ! ix"] show ?thesis by auto
next
  case create
  then show ?thesis by (auto simp: accounts_for_def new_group_def)
qed

lemma body_keeps_fragments:
  assumes body: "processType_body compare type i st = Inr st'"
    and cur: "schema_items_or_schema i type = Inr cur" "cur \<in> F"
    and old: "\<forall>g\<in>set (grouped st). schema g \<in> F"
  shows "\<forall>g\<in>set (grouped st'). schema g \<in> F"
  using cur(1)
proof (cases rule: body_cases [where compare = compare and st = st])
  case (throw e)
  with body old show ?thesis by auto
next
  case (merge ix)
  let ?g = "updateGroupedSchema (grouped st ! ix) i type"
  from merge have ix: "ix < length (grouped st)" by (simp add: first_index_Some)
  then have "schema ?g \<in> F" using old by (simp add: updateGroupedSchema_eq)
  moreover have "set ((grouped st)[ix := ?g]) \<subseteq> insert ?g (set (grouped st))"
    by (rule set_update_subset_insert)
  ultimately have "\<forall>g\<in>set ((grouped st)[ix := ?g]). schema g \<in> F" using old by blast
  with merge body show ?thesis by auto
next
  case create
  with body old cur(2) show ?thesis by (auto simp: new_group_def)
qed

lemma step_keeps_account:
  "\<exists>g\<in>set (grouped st). accounts_for t i g \<Longrightarrow>
   \<exists>g\<in>set (grouped (step compare ti st)). accounts_for t i g"
  by (cases "processType_body compare (fst ti) (snd ti) st")
     (auto simp: step_def dest: body_keeps_account)

lemma fold_keeps_account:
  "\<exists>g\<in>set (grouped st). accounts_for t i g \<Longrightarrow>
   \<exists>g\<in>set (grouped (fold (step compare) w st)). accounts_for t i g"
  by (induction w arbitrary: st) (simp_all add: step_keeps_account)

lemma fold_accounts_local:
  assumes nt: "\<forall>a\<in>F. \<forall>b\<in>F. \<not> isl (compare a b)"
    and w: "\<forall>ti\<in>set w. has_schema (fst ti) (snd ti) \<and> fragment (schema_opt (snd ti) (fst ti)) \<in> F"
    and inv: "\<forall>g\<in>set (grouped st). schema g \<in> F"
    and m: "(t, i) \<in> set w"
  shows "\<exists>g\<in>set (grouped (fold (step compare) w st)). accounts_for t i g"
  using w inv m
proof (induction w arbitrary: st)
  case Nil
  then show ?case by simp
next
  case (Cons x w)
  let ?cur = "fragment (schema_opt (snd x) (fst x))"
  from Cons.prems(1) have hx: "has_schema (fst x) (snd x)" and fx: "?cur \<in> F" by auto
  have body: "processType_body compare (fst x) (snd x) st = Inr (step compare x st)"
    using step_occurrence [OF hx, of compare st] by simp
  have inv1: "\<forall>g\<in>set (grouped (step compare x st)). schema g \<in> F"
    by (rule body_keeps_fragments [OF body schema_items_or_schema_filtered [OF hx] fx Cons.prems(2)])
  show ?case
  proof (cases "(t, i) = x")
    case True
    have "\<forall>g\<in>set (grouped st). \<not> isl (compare (schema g) ?cur)"
      using nt fx Cons.prems(2) by blast
    from body_accounts_local [where compare = compare and st = st and type = "fst x"
        and i = "snd x", OF hx this] body True
    have "\<exists>g\<in>set (grouped (step compare x st)). accounts_for t i g" by auto
    then show ?thesis by (simp add: fold_keeps_account)
  next
    case False
    with Cons.prems have "(t, i) \<in> set w"
      "\<forall>ti\<in>set w. has_schema (fst ti) (snd ti) \<and> fragment (schema_opt (snd ti) (fst ti)) \<in> F"
      by auto
    from Cons.IH [OF this(2) inv1 this(1)] show ?thesis by simp
  qed
qed

lemma occurrences_member:
  "i \<in> set array \<Longrightarrow> has_schema t i \<Longrightarrow> (t, i) \<in> set (occurrences array)"
  by (cases t) (auto simp: occurrences_def)

lemma occurrences_have_schema: "\<forall>ti\<in>set (occurrences array). has_schema (fst ti) (snd ti)"
  by (auto simp: occurrences_def)

lemma coverage_local:
  assumes nt: "\<forall>j\<in>set array. \<forall>u. has_schema u j \<longrightarrow>
      (\<forall>k\<in>set array. \<forall>v. has_schema v k \<longrightarrow>
         \<not> isl (compare (fragment (schema_opt j u)) (fragment (schema_opt k v))))"
    and i: "i \<in> set array" "has_schema t i"
  shows "\<exists>g\<in>set (grouped (fold (step compare) (occurrences array) initial)). accounts_for t i g"
proof -
  let ?F = "{fragment (schema_opt j u) | j u. j \<in> set array \<and> has_schema u j}"
  have a: "\<forall>a\<in>?F. \<forall>b\<in>?F. \<not> isl (compare a b)" using nt by blast
  have b: "\<forall>ti\<in>set (occurrences array).
      has_schema (fst ti) (snd ti) \<and> fragment (schema_opt (snd ti) (fst ti)) \<in> ?F"
    by (auto simp: occurrences_def) blast+
  have c: "\<forall>g\<in>set (grouped initial). schema g \<in> ?F" by (simp add: initial_def)
  show ?thesis
    by (rule fold_accounts_local [OF a b c occurrences_member [OF i]])
qed

lemma count_le_endpoints:
  assumes cov: "\<forall>i\<in>set array. has_schema t i \<longrightarrow> (\<exists>g\<in>set gs. accounts_for t i g)"
    and dist: "distinct (map endpoint_of array)"
  shows "occurrences_in_direction t array \<le> endpoints_in_direction t gs"
proof -
  let ?es = "map endpoint_of (filter (has_schema t) array)"
  let ?all = "concat (map endpoints (filter (\<lambda>g. t \<in> set (message_type g)) gs))"
  have d: "distinct ?es" using dist by (rule distinct_map_filter)
  have "set ?es \<subseteq> set ?all"
    using cov by (auto simp: accounts_for_def)
  then have "card (set ?es) \<le> card (set ?all)" by (intro card_mono) simp_all
  also have "\<dots> \<le> length ?all" by (rule card_length)
  also have "\<dots> = endpoints_in_direction t gs"
    by (simp add: endpoints_in_direction_def length_concat comp_def)
  finally have "card (set ?es) \<le> endpoints_in_direction t gs" .
  moreover have "card (set ?es) = length ?es" using d by (rule distinct_card)
  ultimately show ?thesis by (simp add: occurrences_in_direction_def)
qed

text \<open>
  Claim C6, as stated, fails: the triple of \<open>item_u\<close> is in the endpoint lists of both
  groups, each of which carries the tag \<^verbatim>\<open>res\<close>, and the sizes of the endpoint lists of the
  groups tagged \<^verbatim>\<open>res\<close> add up to 3 for 2 response occurrences (2 for 1 request
  occurrence).
\<close>

theorem endpoint_sums_exceed_occurrences_counterexample:
  "groupBySchema compare_equal [item_u, item_v] = Inr uv_groups \<and>
   length (filter (accounts_for Res item_u) uv_groups) = 2 \<and>
   occurrences_in_direction Res [item_u, item_v] = 2 \<and>
   endpoints_in_direction Res uv_groups = 3 \<and>
   endpoints_in_direction Res uv_groups \<noteq> occurrences_in_direction Res [item_u, item_v] \<and>
   occurrences_in_direction Req [item_u, item_v] = 1 \<and>
   endpoints_in_direction Req uv_groups = 2 \<and>
   endpoints_in_direction Req uv_groups \<noteq> occurrences_in_direction Req [item_u, item_v]"
  by code_simp

text \<open>
  Claim C6, amended. When the comparator throws on no pair of fragments of the occurrences
  of the array, every occurrence is accounted for by at least one group: its triple is in
  the endpoint list of a group that carries its direction. When, in addition, the items
  have pairwise different triples, the sizes of the endpoint lists of the groups tagged with
  a direction add up to at least the number of occurrences of that direction.
\<close>

theorem every_occurrence_is_accounted_for:
  assumes "\<forall>j\<in>set array. \<forall>u. has_schema u j \<longrightarrow>
      (\<forall>k\<in>set array. \<forall>v. has_schema v k \<longrightarrow>
         \<not> isl (compare (fragment (schema_opt j u)) (fragment (schema_opt k v))))"
  shows "\<exists>gs. groupBySchema compare array = Inr gs \<and>
           (\<forall>i\<in>set array. \<forall>t. has_schema t i \<longrightarrow>
              (\<exists>g\<in>set gs. endpoint_of i \<in> set (endpoints g) \<and> t \<in> set (message_type g))) \<and>
           (distinct (map endpoint_of array) \<longrightarrow>
              (\<forall>t. occurrences_in_direction t array \<le> endpoints_in_direction t gs))"
proof -
  let ?gs = "grouped (fold (step compare) (occurrences array) initial)"
  have cov: "\<forall>i\<in>set array. \<forall>t. has_schema t i \<longrightarrow> (\<exists>g\<in>set ?gs. accounts_for t i g)"
    using coverage_local [OF assms] by blast
  then have "distinct (map endpoint_of array) \<longrightarrow>
      (\<forall>t. occurrences_in_direction t array \<le> endpoints_in_direction t ?gs)"
    by (auto intro!: count_le_endpoints)
  with cov show ?thesis
    by (intro exI [of _ ?gs]) (simp add: groupBySchema_fold accounts_for_def)
qed

theorem every_occurrence_is_accounted_for_witness:
  "(\<exists>gs. groupBySchema compare_objects [item_u, item_v] = Inr gs \<and>
      list_ex (accounts_for Req item_u) gs \<and>
      occurrences_in_direction Res [item_u, item_v] \<le> endpoints_in_direction Res gs) \<and>
   has_schema Req item_u \<and> distinct (map endpoint_of [item_u, item_v]) \<and>
   isl (compare_objects (JArray []) user_schema)"
proof -
  have f: "fragment (schema_opt item_u Res) = user_schema"
    "fragment (schema_opt item_u Req) = text_schema"
    "fragment (schema_opt item_v Res) = text_schema" by code_simp+
  have n: "\<not> has_schema Req item_v" by code_simp
  have frag: "fragment (schema_opt j u) = user_schema \<or> fragment (schema_opt j u) = text_schema"
    if "j \<in> set [item_u, item_v]" "has_schema u j" for j u
    using that f n by (cases u) auto
  have ok: "\<not> isl (compare_objects a b)" if "a = user_schema \<or> a = text_schema" for a b
    using that by (auto simp: compare_objects_def user_schema_def text_schema_def)
  have nt: "\<forall>j\<in>set [item_u, item_v]. \<forall>u. has_schema u j \<longrightarrow>
      (\<forall>k\<in>set [item_u, item_v]. \<forall>v. has_schema v k \<longrightarrow>
         \<not> isl (compare_objects (fragment (schema_opt j u)) (fragment (schema_opt k v))))"
    using frag ok by blast
  have h: "has_schema Req item_u" by code_simp
  have d: "distinct (map endpoint_of [item_u, item_v])" by code_simp
  have t: "isl (compare_objects (JArray []) user_schema)" by code_simp
  from every_occurrence_is_accounted_for [OF nt] h d t
  show ?thesis by (auto simp: list_ex_iff accounts_for_def)
qed

subsection \<open>C8: a conversion that fails\<close>

text \<open>
  Claim C8 at the failing inputs. When the converter's error carries no \<^verbatim>\<open>options\<close>,
  \<^verbatim>\<open>convert2V3_2\<close> throws a \<^verbatim>\<open>TypeError\<close> and \<^verbatim>\<open>extractSchemas\<close> returns \<^verbatim>\<open>null\<close>; when the
  \<^verbatim>\<open>options\<close> carry no partial output it returns \<^verbatim>\<open>undefined\<close>; in neither case the original
  input, which is what \<^verbatim>\<open>convert2V3\<close> returns when its conversion fails. A document with the
  marker is returned unchanged, and a partial output is returned when the error carries one.
\<close>

theorem failed_conversion_without_partial_output:
  "convert2V3_2 convertObj_rejecting unsupported_doc = Inl TypeError \<and>
   extractSchemas_normalize convertObj_rejecting unsupported_doc = Inl TypeError \<and>
   extractSchemas convertObj_rejecting unsupported_doc = None \<and>
   convert2V3_2 convertObj_no_partial unsupported_doc = Inr JUndefined \<and>
   extractSchemas convertObj_no_partial unsupported_doc = None \<and>
   convert2V3 post_failing unsupported_doc = unsupported_doc \<and>
   extractSchemas_normalize convertObj_rejecting partial_doc = Inr partial_doc \<and>
   extractSchemas_normalize convertObj_partial swagger_doc = Inr partial_doc"
  by code_simp

subsection \<open>C9: a document without paths\<close>

text \<open>
  Without \<^verbatim>\<open>paths\<close> in the normalised document (the property is missing or \<^verbatim>\<open>null\<close>),
  \<^verbatim>\<open>Object.entries\<close> throws inside the \<^verbatim>\<open>try\<close> block, \<^verbatim>\<open>extractSchemas\<close> returns
  \<^verbatim>\<open>null\<close>, and the destructuring in \<^verbatim>\<open>computeSizeMetrics\<close> throws.
\<close>

lemma extractSchemas_without_paths:
  assumes "extractSchemas_normalize convertObj doc = Inr converted"
    and "nullish (get_opt converted ''paths'')"
  shows "extractSchemas convertObj doc = None"
proof (cases "nullish converted")
  case True
  then show ?thesis
    by (simp add: extractSchemas_def extractSchemas_try_def assms(1) get_prop_nullish)
next
  case False
  then show ?thesis
    by (simp add: extractSchemas_def extractSchemas_try_def assms get_prop_not_nullish
        Object_entries_nullish)
qed

lemma caller_throws_without_paths:
  assumes "extractSchemas_normalize convertObj doc = Inr converted"
    and "nullish (get_opt converted ''paths'')"
  shows "computeSizeMetrics_groupedSchemas convertObj compare doc = Inl TypeError"
  using extractSchemas_without_paths [OF assms]
  by (simp add: computeSizeMetrics_groupedSchemas_def)

text \<open>
  Claim C9 at a failing input: an OpenAPI 3.1 document without \<^verbatim>\<open>paths\<close>.
  \<^verbatim>\<open>extractSchemas\<close> returns \<^verbatim>\<open>null\<close>, not an empty list of occurrences, and
  \<^verbatim>\<open>computeSizeMetrics\<close> throws a \<^verbatim>\<open>TypeError\<close> before \<^verbatim>\<open>groupBySchema\<close> is called,
  where the claim has an empty list grouped into no groups.
\<close>

theorem missing_paths_is_fatal:
  "get_opt pathless_doc ''paths'' = JUndefined \<and>
   extractSchemas convertObj_rejecting pathless_doc = None \<and>
   extractSchemas convertObj_rejecting pathless_doc \<noteq> Some ([], pathless_doc) \<and>
   computeSizeMetrics_groupedSchemas convertObj_rejecting compare_equal pathless_doc = Inl TypeError \<and>
   groupBySchema compare_equal [] = Inr [] \<and>
   computeSizeMetrics_groupedSchemas convertObj_rejecting compare_equal pathless_doc
     \<noteq> groupBySchema compare_equal []"
  by code_simp

subsection \<open>C10: one request body, one record per status code\<close>


lemma flatMap_throwing_append:
  "flatMap_throwing f (xs @ ys) =
     (case flatMap_throwing f xs of
        Inl e \<Rightarrow> Inl e
      | Inr a \<Rightarrow> (case flatMap_throwing f ys of Inl e \<Rightarrow> Inl e | Inr b \<Rightarrow> Inr (a @ b)))"
  by (induction xs) (auto split: sum.splits)






subsubsection \<open>A group fed with the same fragment\<close>




subsubsection \<open>At most one endpoint is added by an iteration\<close>







end
